theory Spec2Isabelle
  imports Main "HOL-Library.Word" "HOL-Library.Signed_Division"
begin

section \<open>The slot store of assignment 1 (HashTable.cpp)\<close>

text \<open>
  The C++ class \<^verbatim>\<open>HashTable\<close> keeps two parallel vectors (\<^verbatim>\<open>table\<close>, \<^verbatim>\<open>occupied\<close>) and
  four \<^verbatim>\<open>int\<close> fields. The record below has the same fields; the field \<^verbatim>\<open>size\<close> is
  called \<open>size_ht\<close> because \<open>size\<close> is a constant of HOL. Stored values are C++ \<^verbatim>\<open>int\<close>s
  and are modelled as 32-bit words (read with \<open>sint\<close>); the four \<^verbatim>\<open>int\<close> fields are
  modelled as mathematical integers, and the three places where the C++ arithmetic on
  them can leave the range of \<^verbatim>\<open>int\<close> are explicit error branches:
  \<^verbatim>\<open>size + 2000\<close> in \<^verbatim>\<open>resize\<close>, \<^verbatim>\<open>elements_count++\<close> in \<^verbatim>\<open>insert\<close> and
  \<^verbatim>\<open>elements_count--\<close> in \<^verbatim>\<open>remove\<close>. (The probe step \<^verbatim>\<open>index + 1\<close> is applied to an
  index that has just been used to read both vectors.)

  Exceptions of the source are values of the type \<open>error\<close>: \<open>Overflow_error\<close> is
  \<^verbatim>\<open>std::overflow_error\<close>, \<open>Invalid_argument\<close> is \<^verbatim>\<open>std::invalid_argument\<close> (the spec's
  KeyNotFound), \<open>Runtime_error\<close> is \<^verbatim>\<open>std::runtime_error\<close>, \<open>Length_error\<close> is the
  \<^verbatim>\<open>std::length_error\<close> that \<^verbatim>\<open>std::vector\<close> throws when asked for more than
  \<^verbatim>\<open>max_size()\<close> elements. \<open>Undefined_behaviour\<close> stands for the places where the C++
  program has no defined result: an index outside a vector, a remainder by zero, a signed
  overflow.
\<close>

datatype error =
  Overflow_error | Invalid_argument | Runtime_error | Length_error | Undefined_behaviour

record hash_table =
  table :: "(string \<times> 32 word) list"
  occupied :: "bool list"
  first_index :: int
  last_index :: int
  size_ht :: int
  elements_count :: int

definition INT_MAX :: int where
  "INT_MAX = 2147483647"

definition INT_MIN :: int where
  "INT_MIN = - 2147483648"

text \<open>
  The constructor \<^verbatim>\<open>HashTable(int size)\<close>. A negative \<^verbatim>\<open>size\<close> converts to a
  \<^verbatim>\<open>size_t\<close> beyond \<^verbatim>\<open>max_size()\<close>, and the vector constructor throws.
\<close>

definition HashTable :: "int \<Rightarrow> error + hash_table" where
  "HashTable sz =
     (if sz < 0 then Inl Length_error
      else Inr \<lparr> table = replicate (nat sz) ('''', 0), occupied = replicate (nat sz) False,
                 first_index = - 1, last_index = - 1, size_ht = sz, elements_count = 0 \<rparr>)"

text \<open>
  \<^verbatim>\<open>hash(key, table_size)\<close> is \<^verbatim>\<open>hash_fn(key) % table_size\<close>, where \<^verbatim>\<open>hash_fn\<close> is
  \<^verbatim>\<open>std::hash<std::string>\<close>: a function of the standard library, not of this repository,
  with a 64-bit unsigned result. It is a parameter of the model. The remainder is taken
  in \<^verbatim>\<open>size_t\<close> (the \<^verbatim>\<open>int\<close> is converted, \<open>word_of_int\<close>) and the result is converted
  back to \<^verbatim>\<open>int\<close> (\<open>ucast\<close> to 32 bits, read signed). A remainder by zero is undefined.
\<close>

definition hash :: "(string \<Rightarrow> 64 word) \<Rightarrow> string \<Rightarrow> int \<Rightarrow> error + int" where
  "hash hash_fn key table_size =
     (if table_size = 0 then Inl Undefined_behaviour
      else Inr (sint (ucast (hash_fn key mod (word_of_int table_size :: 64 word)) :: 32 word)))"

text \<open>An index is usable when it lies inside both vectors.\<close>

definition slot_ok :: "hash_table \<Rightarrow> int \<Rightarrow> bool" where
  "slot_ok ht index =
     (0 \<le> index \<and> nat index < length (table ht) \<and> nat index < length (occupied ht))"

text \<open>
  \<^verbatim>\<open>linear_probe\<close>: a \<^verbatim>\<open>while\<close> loop with no bound of its own; it may run forever when
  called with an index outside \<open>0..<table_size\<close>, so not returning is the value \<open>None\<close>.
  The C++ operator \<^verbatim>\<open>%\<close> truncates towards zero (\<open>smod\<close>).
\<close>

partial_function (option) linear_probe_loop ::
  "int \<Rightarrow> int \<Rightarrow> int \<Rightarrow> bool list \<Rightarrow> (error + int) option" where
  "linear_probe_loop original_index index table_size table_occupied =
     (if index < 0 \<or> length table_occupied \<le> nat index then Some (Inl Undefined_behaviour)
      else if table_occupied ! nat index then
        (if table_size = 0 then Some (Inl Undefined_behaviour)
         else if (index + 1) smod table_size = original_index then Some (Inl Overflow_error)
         else linear_probe_loop original_index ((index + 1) smod table_size) table_size
                table_occupied)
      else Some (Inr index))"

declare linear_probe_loop.simps [code]

definition linear_probe :: "int \<Rightarrow> int \<Rightarrow> bool list \<Rightarrow> (error + int) option" where
  "linear_probe index table_size table_occupied =
     linear_probe_loop index index table_size table_occupied"

text \<open>
  \<^verbatim>\<open>resize\<close>: the loop over the old slots \<open>i = 0, ..., size - 1\<close>, threading the new
  vectors and the two new indices. The new size is \<^verbatim>\<open>size + 2000\<close>.
\<close>

type_synonym rehash_state = "(string \<times> 32 word) list \<times> bool list \<times> int \<times> int"

fun resize_loop ::
  "(string \<Rightarrow> 64 word) \<Rightarrow> hash_table \<Rightarrow> int \<Rightarrow> nat list \<Rightarrow> rehash_state \<Rightarrow>
   (error + rehash_state) option" where
  "resize_loop hash_fn ht new_size [] st = Some (Inr st)"
| "resize_loop hash_fn ht new_size (i # is) (new_table, new_occupied, new_first, new_last) =
     (if \<not> slot_ok ht (int i) then Some (Inl Undefined_behaviour)
      else if occupied ht ! i then
        (case hash hash_fn (fst (table ht ! i)) new_size of
           Inl e \<Rightarrow> Some (Inl e)
         | Inr h \<Rightarrow>
            (case linear_probe h new_size new_occupied of
               None \<Rightarrow> None
             | Some (Inl e) \<Rightarrow> Some (Inl e)
             | Some (Inr new_index) \<Rightarrow>
                 resize_loop hash_fn ht new_size is
                   (new_table[nat new_index := table ht ! i],
                    new_occupied[nat new_index := True],
                    (if int i = first_index ht then new_index else new_first),
                    new_index)))
      else resize_loop hash_fn ht new_size is (new_table, new_occupied, new_first, new_last))"

definition resize :: "(string \<Rightarrow> 64 word) \<Rightarrow> hash_table \<Rightarrow> (error + hash_table) option" where
  "resize hash_fn ht =
     (let new_size = size_ht ht + 2000 in
      if INT_MAX < new_size then Some (Inl Undefined_behaviour)
      else if new_size < 0 then Some (Inl Length_error)
      else
        (case resize_loop hash_fn ht new_size [0..<nat (size_ht ht)]
                (replicate (nat new_size) ('''', 0), replicate (nat new_size) False, - 1, - 1) of
           None \<Rightarrow> None
         | Some (Inl e) \<Rightarrow> Some (Inl e)
         | Some (Inr (new_table, new_occupied, new_first, new_last)) \<Rightarrow>
             Some (Inr (ht\<lparr> table := new_table, occupied := new_occupied, size_ht := new_size,
                            first_index := new_first, last_index := new_last \<rparr>))))"

text \<open>
  \<^verbatim>\<open>insert\<close>: the \<^verbatim>\<open>for\<close> loop runs at most \<^verbatim>\<open>size\<close> times; the first argument of
  \<open>insert_loop\<close> is the number of iterations left. \<^verbatim>\<open>elements_count++\<close> at \<open>INT_MAX\<close>
  and, in \<^verbatim>\<open>remove\<close>, \<^verbatim>\<open>elements_count--\<close> at \<open>INT_MIN\<close> are signed overflows (the count
  field can hold any \<^verbatim>\<open>int\<close>, since \<^verbatim>\<open>load_from_file\<close> reads it from the file).
\<close>

fun insert_loop :: "nat \<Rightarrow> int \<Rightarrow> hash_table \<Rightarrow> string \<Rightarrow> 32 word \<Rightarrow> error + hash_table" where
  "insert_loop 0 index ht key v = Inl Overflow_error"
| "insert_loop (Suc n) index ht key v =
     (if \<not> slot_ok ht index then Inl Undefined_behaviour
      else if occupied ht ! nat index then
        (if fst (table ht ! nat index) = key
         then Inr (ht\<lparr> table := (table ht)[nat index := (fst (table ht ! nat index), v)] \<rparr>)
         else insert_loop n ((index + 1) smod size_ht ht) ht key v)
      else if INT_MAX \<le> elements_count ht then Inl Undefined_behaviour
      else
        Inr (ht\<lparr> table := (table ht)[nat index := (key, v)],
                  occupied := (occupied ht)[nat index := True],
                  elements_count := elements_count ht + 1,
                  first_index := (if first_index ht = - 1 then index else first_index ht),
                  last_index := index \<rparr>))"

definition insert_ht ::
  "(string \<Rightarrow> 64 word) \<Rightarrow> hash_table \<Rightarrow> string \<Rightarrow> 32 word \<Rightarrow> (error + hash_table) option" where
  "insert_ht hash_fn ht key v =
     (case (if elements_count ht = size_ht ht then resize hash_fn ht else Some (Inr ht)) of
        None \<Rightarrow> None
      | Some (Inl e) \<Rightarrow> Some (Inl e)
      | Some (Inr ht1) \<Rightarrow>
          (case hash hash_fn key (size_ht ht1) of
             Inl e \<Rightarrow> Some (Inl e)
           | Inr index \<Rightarrow> Some (insert_loop (nat (size_ht ht1)) index ht1 key v)))"

fun remove_loop :: "nat \<Rightarrow> int \<Rightarrow> hash_table \<Rightarrow> string \<Rightarrow> error + hash_table" where
  "remove_loop 0 index ht key = Inl Invalid_argument"
| "remove_loop (Suc n) index ht key =
     (if \<not> slot_ok ht index then Inl Undefined_behaviour
      else if occupied ht ! nat index \<and> fst (table ht ! nat index) = key then
        if elements_count ht \<le> INT_MIN then Inl Undefined_behaviour
        else
        Inr (ht\<lparr> occupied := (occupied ht)[nat index := False],
                  table := (table ht)[nat index := ('''', 0)],
                  elements_count := elements_count ht - 1,
                  first_index := (if index = first_index ht then - 1 else first_index ht),
                  last_index := (if index = last_index ht then - 1 else last_index ht) \<rparr>)
      else remove_loop n ((index + 1) smod size_ht ht) ht key)"

definition remove_ht :: "(string \<Rightarrow> 64 word) \<Rightarrow> hash_table \<Rightarrow> string \<Rightarrow> error + hash_table" where
  "remove_ht hash_fn ht key =
     (case hash hash_fn key (size_ht ht) of
        Inl e \<Rightarrow> Inl e
      | Inr index \<Rightarrow> remove_loop (nat (size_ht ht)) index ht key)"

fun get_loop :: "nat \<Rightarrow> int \<Rightarrow> hash_table \<Rightarrow> string \<Rightarrow> error + 32 word" where
  "get_loop 0 index ht key = Inl Invalid_argument"
| "get_loop (Suc n) index ht key =
     (if \<not> slot_ok ht index then Inl Undefined_behaviour
      else if occupied ht ! nat index \<and> fst (table ht ! nat index) = key then
        Inr (snd (table ht ! nat index))
      else get_loop n ((index + 1) smod size_ht ht) ht key)"

definition get :: "(string \<Rightarrow> 64 word) \<Rightarrow> hash_table \<Rightarrow> string \<Rightarrow> error + 32 word" where
  "get hash_fn ht key =
     (case hash hash_fn key (size_ht ht) of
        Inl e \<Rightarrow> Inl e
      | Inr index \<Rightarrow> get_loop (nat (size_ht ht)) index ht key)"

definition get_stats :: "hash_table \<Rightarrow> int \<times> int" where
  "get_stats ht = (int (length (filter (\<lambda>slot. slot) (occupied ht))), size_ht ht)"

definition get_last :: "hash_table \<Rightarrow> error + string \<times> 32 word" where
  "get_last ht =
     (if last_index ht = - 1 then Inl Runtime_error
      else if \<not> slot_ok ht (last_index ht) then Inl Undefined_behaviour
      else Inr (table ht ! nat (last_index ht)))"

definition get_first :: "hash_table \<Rightarrow> error + string \<times> 32 word" where
  "get_first ht =
     (if first_index ht = - 1 then Inl Runtime_error
      else if \<not> slot_ok ht (first_index ht) then Inl Undefined_behaviour
      else Inr (table ht ! nat (first_index ht)))"

subsection \<open>The persistence codec (save and load)\<close>

text \<open>
  A file is its sequence of bytes (\<open>char\<close> is the 8-bit character type). An \<^verbatim>\<open>int\<close> is
  written as the four bytes of its two's complement representation, in the byte order of
  the machine; the model takes the little-endian order of the platforms the program is
  built for. \<open>bytes_int\<close> reads four bytes back as a signed 32-bit value.
\<close>

definition int_bytes :: "int \<Rightarrow> char list" where
  "int_bytes x = [char_of x, char_of (x div 256), char_of (x div 65536), char_of (x div 16777216)]"

definition bytes_int :: "char list \<Rightarrow> int" where
  "bytes_int bs =
     (let u = of_char (bs ! 0) + 256 * of_char (bs ! 1) + 65536 * of_char (bs ! 2)
              + 16777216 * of_char (bs ! 3)
      in if 2147483648 \<le> u then u - 4294967296 else u)"

text \<open>
  \<^verbatim>\<open>int key_size = table[i].first.size()\<close>: the conversion of a \<^verbatim>\<open>size_t\<close> to \<^verbatim>\<open>int\<close>
  keeps the low 32 bits.
\<close>

definition size_to_int :: "nat \<Rightarrow> int" where
  "size_to_int n = sint (word_of_nat n :: 32 word)"

definition slot_bytes :: "string \<times> 32 word \<Rightarrow> bool \<Rightarrow> char list" where
  "slot_bytes entry is_occupied =
     (let key_size = size_to_int (length (fst entry))
      in int_bytes key_size @ take (nat key_size) (fst entry) @ int_bytes (sint (snd entry))
         @ [if is_occupied then char_of (1 :: nat) else char_of (0 :: nat)])"

text \<open>
  \<^verbatim>\<open>save_to_file\<close>: the first argument says whether the output file could be opened.
  The result is the content of the file written.
\<close>

definition save_to_file :: "bool \<Rightarrow> hash_table \<Rightarrow> error + char list" where
  "save_to_file opened ht =
     (if \<not> opened then Inl Runtime_error
      else if length (table ht) < nat (size_ht ht) \<or> length (occupied ht) < nat (size_ht ht)
      then Inl Undefined_behaviour
      else Inr (int_bytes (size_ht ht) @ int_bytes (elements_count ht)
                @ int_bytes (first_index ht) @ int_bytes (last_index ht)
                @ concat (map (\<lambda>i. slot_bytes (table ht ! i) (occupied ht ! i))
                            [0..<nat (size_ht ht)])))"

text \<open>
  Reading. \<^verbatim>\<open>file.read(p, n)\<close> stores the bytes it could extract and sets the fail bit
  when they are fewer than \<^verbatim>\<open>n\<close>. \<open>read_field\<close> is a read into a field of the object:
  after a short read the field holds the bytes that were read over its old low bytes.
  \<open>read_int\<close> and \<open>read_chars\<close> are reads into locals, which the loop abandons after a
  short read.
\<close>

definition read_field :: "int \<Rightarrow> char list \<Rightarrow> bool \<times> int \<times> char list" where
  "read_field old file =
     (if 4 \<le> length file then (True, bytes_int (take 4 file), drop 4 file)
      else (False, bytes_int (file @ drop (length file) (int_bytes old)), []))"

definition read_int :: "char list \<Rightarrow> (int \<times> char list) option" where
  "read_int file =
     (if 4 \<le> length file then Some (bytes_int (take 4 file), drop 4 file) else None)"

definition read_chars :: "nat \<Rightarrow> char list \<Rightarrow> (char list \<times> char list) option" where
  "read_chars n file = (if n \<le> length file then Some (take n file, drop n file) else None)"

text \<open>\<^verbatim>\<open>std::vector::resize(n)\<close>: cut to \<open>n\<close> elements or fill up with the default.\<close>

definition vector_resize :: "'a list \<Rightarrow> nat \<Rightarrow> 'a \<Rightarrow> 'a list" where
  "vector_resize xs n d = take n xs @ replicate (n - length xs) d"

text \<open>
  The slot loop of \<^verbatim>\<open>load_from_file\<close>. The first argument is the number of iterations
  left, the second the index \<^verbatim>\<open>i\<close>. The first component of the result says whether the loop
  ran to its end (\<open>True\<close>) or left through one of its \<^verbatim>\<open>break\<close>s (\<open>False\<close>); the source
  only logs that difference.
\<close>

fun load_loop :: "nat \<Rightarrow> nat \<Rightarrow> char list \<Rightarrow> hash_table \<Rightarrow> bool \<times> hash_table" where
  "load_loop 0 i file ht = (True, ht)"
| "load_loop (Suc n) i file ht =
     (case read_int file of
        None \<Rightarrow> (False, ht)
      | Some (key_size, file1) \<Rightarrow>
          if key_size < 0 \<or> 1000 < key_size then (False, ht)
          else
            (case read_chars (nat key_size) file1 of
               None \<Rightarrow> (False, ht)
             | Some (key, file2) \<Rightarrow>
                 (case read_int file2 of
                    None \<Rightarrow> (False, ht)
                  | Some (v, file3) \<Rightarrow>
                      (case read_chars 1 file3 of
                         None \<Rightarrow> (False, ht)
                       | Some (is_occupied, file4) \<Rightarrow>
                           load_loop n (Suc i) file4
                             (ht\<lparr> occupied := (occupied ht)[i := (is_occupied = [char_of (1 :: nat)])],
                                  table := (table ht)[i := (key, word_of_int v)] \<rparr>)))))"

text \<open>
  The header of \<^verbatim>\<open>load_from_file\<close>: the four fields are read one after the other into
  the object. The second component of the result is \<open>None\<close> after a short read (the
  first is the object as it is then), otherwise the rest of the file.
\<close>

definition load_header :: "char list \<Rightarrow> hash_table \<Rightarrow> hash_table \<times> char list option" where
  "load_header file ht =
     (case read_field (size_ht ht) file of (ok1, sz, file1) \<Rightarrow>
        let ht1 = ht\<lparr> size_ht := sz \<rparr> in
        if \<not> ok1 then (ht1, None)
        else
          (case read_field (elements_count ht1) file1 of (ok2, cnt, file2) \<Rightarrow>
             let ht2 = ht1\<lparr> elements_count := cnt \<rparr> in
             if \<not> ok2 then (ht2, None)
             else
               (case read_field (first_index ht2) file2 of (ok3, fi, file3) \<Rightarrow>
                  let ht3 = ht2\<lparr> first_index := fi \<rparr> in
                  if \<not> ok3 then (ht3, None)
                  else
                    (case read_field (last_index ht3) file3 of (ok4, li, file4) \<Rightarrow>
                       let ht4 = ht3\<lparr> last_index := li \<rparr> in
                       if \<not> ok4 then (ht4, None) else (ht4, Some file4)))))"

text \<open>
  \<^verbatim>\<open>load_from_file\<close>: the file is \<open>None\<close> when it cannot be opened. A negative \<^verbatim>\<open>size\<close>
  converts to a \<^verbatim>\<open>size_t\<close> beyond \<^verbatim>\<open>max_size()\<close>, and \<^verbatim>\<open>table.resize(size)\<close> throws
  \<^verbatim>\<open>std::length_error\<close>. \<open>load_slots\<close> is the part after the header, with the exit of the
  loop; \<open>load_from_file\<close> returns \<^verbatim>\<open>true\<close> whatever that exit was.
\<close>

definition load_slots :: "char list \<Rightarrow> hash_table \<Rightarrow> error + (bool \<times> hash_table)" where
  "load_slots file ht =
     (if size_ht ht < 0 then Inl Length_error
      else Inr (load_loop (nat (size_ht ht)) 0 file
                  (ht\<lparr> table := vector_resize (table ht) (nat (size_ht ht)) ('''', 0),
                       occupied := vector_resize (occupied ht) (nat (size_ht ht)) False \<rparr>)))"

definition load_from_file :: "char list option \<Rightarrow> hash_table \<Rightarrow> error + (bool \<times> hash_table)" where
  "load_from_file file ht =
     (case file of
        None \<Rightarrow> Inr (False, ht)
      | Some content \<Rightarrow>
          (case load_header content ht of
             (ht1, None) \<Rightarrow> Inr (False, ht1)
           | (ht4, Some rest) \<Rightarrow>
               (case load_slots rest ht4 of
                  Inl e \<Rightarrow> Inl e
                | Inr (completed, ht5) \<Rightarrow> Inr (True, ht5))))"

section \<open>The ingestion pipeline (TextProcessor.cpp)\<close>

text \<open>
  \<^verbatim>\<open>clean_text\<close> replaces every maximal run of characters outside \<^verbatim>\<open>[a-zA-Z0-9]\<close> by one
  space.
\<close>

definition is_alnum :: "char \<Rightarrow> bool" where
  "is_alnum c =
     (let n = (of_char c :: nat)
      in (48 \<le> n \<and> n \<le> 57) \<or> (65 \<le> n \<and> n \<le> 90) \<or> (97 \<le> n \<and> n \<le> 122))"

function clean_text :: "string \<Rightarrow> string" where
  "clean_text [] = []"
| "clean_text (c # cs) =
     (if is_alnum c then c # clean_text cs
      else CHR '' '' # clean_text (dropWhile (\<lambda>c. \<not> is_alnum c) cs))"
  by pat_completeness auto
termination
  by (relation "measure length") (auto simp: length_dropWhile_le less_Suc_eq_le)

text \<open>
  \<^verbatim>\<open>stream >> word\<close> skips white space (of the C locale) and reads up to the next white
  space; \<open>stream_words\<close> is the list of the words so read until the stream ends.
\<close>

definition is_space :: "char \<Rightarrow> bool" where
  "is_space c = (let n = (of_char c :: nat) in n = 32 \<or> (9 \<le> n \<and> n \<le> 13))"

function stream_words :: "string \<Rightarrow> string list" where
  "stream_words s =
     (case dropWhile is_space s of
        [] \<Rightarrow> []
      | c # cs \<Rightarrow>
          takeWhile (\<lambda>c. \<not> is_space c) (c # cs)
          # stream_words (dropWhile (\<lambda>c. \<not> is_space c) cs))"
  by pat_completeness auto
termination
proof (relation "measure length")
  show "wf (measure length)" by simp
next
  fix s :: string and c cs
  assume "dropWhile is_space s = c # cs"
  then have "length (c # cs) \<le> length s"
    by (metis length_dropWhile_le)
  moreover have "length (dropWhile (\<lambda>c. \<not> is_space c) cs) \<le> length cs"
    by (rule length_dropWhile_le)
  ultimately show "(dropWhile (\<lambda>c. \<not> is_space c) cs, s) \<in> measure length"
    by simp
qed

declare stream_words.simps [simp del]

text \<open>\<^verbatim>\<open>::tolower\<close> in the C locale.\<close>

definition to_lower :: "char \<Rightarrow> char" where
  "to_lower c =
     (let n = (of_char c :: nat) in if 65 \<le> n \<and> n \<le> 90 then char_of (n + 32) else c)"

text \<open>
  \<^verbatim>\<open>extract_words\<close>: the inner loop over the sub-tokens of one cleaned word, and the
  outer loop over the words of the file. Only \<^verbatim>\<open>std::invalid_argument\<close> is caught.
\<close>

fun count_tokens ::
  "(string \<Rightarrow> 64 word) \<Rightarrow> string list \<Rightarrow> hash_table \<Rightarrow> (error + hash_table) option" where
  "count_tokens hash_fn [] ht = Some (Inr ht)"
| "count_tokens hash_fn (w # ws) ht =
     (let processed_word = map to_lower w in
      if processed_word = [] then count_tokens hash_fn ws ht
      else
        (case (case get hash_fn ht processed_word of
                 Inr count \<Rightarrow> insert_ht hash_fn ht processed_word (count + 1)
               | Inl Invalid_argument \<Rightarrow> insert_ht hash_fn ht processed_word 1
               | Inl e \<Rightarrow> Some (Inl e)) of
           None \<Rightarrow> None
         | Some (Inl e) \<Rightarrow> Some (Inl e)
         | Some (Inr ht') \<Rightarrow> count_tokens hash_fn ws ht'))"

fun count_words ::
  "(string \<Rightarrow> 64 word) \<Rightarrow> string list \<Rightarrow> hash_table \<Rightarrow> (error + hash_table) option" where
  "count_words hash_fn [] ht = Some (Inr ht)"
| "count_words hash_fn (word # rest) ht =
     (case count_tokens hash_fn (stream_words (clean_text word)) ht of
        None \<Rightarrow> None
      | Some (Inl e) \<Rightarrow> Some (Inl e)
      | Some (Inr ht') \<Rightarrow> count_words hash_fn rest ht')"

definition extract_words ::
  "(string \<Rightarrow> 64 word) \<Rightarrow> string option \<Rightarrow> hash_table \<Rightarrow> (error + hash_table) option" where
  "extract_words hash_fn file ht =
     (case file of
        None \<Rightarrow> Some (Inr ht)
      | Some content \<Rightarrow> count_words hash_fn (stream_words content) ht)"

text \<open>
  \<^verbatim>\<open>compute_md5\<close>. The MD5 functions are OpenSSL's; they are parameters of the model
  (the initial context, the update with a block of bytes, the final digest of 16
  bytes). The loop \<^verbatim>\<open>while (file.read(buffer, sizeof(buffer)))\<close> runs its body only after
  a read of the full 4096 bytes. Each byte of the digest is printed with \<^verbatim>\<open>hex\<close> as an
  \<^verbatim>\<open>int\<close>: no width, no fill character.
\<close>

function md5_blocks :: "('ctx \<Rightarrow> char list \<Rightarrow> 'ctx) \<Rightarrow> 'ctx \<Rightarrow> char list \<Rightarrow> 'ctx" where
  "md5_blocks md5_update ctx file =
     (if 4096 \<le> length file
      then md5_blocks md5_update (md5_update ctx (take 4096 file)) (drop 4096 file)
      else ctx)"
  by pat_completeness auto
termination
  by (relation "measure (\<lambda>(u, c, f). length f)") auto

declare md5_blocks.simps [simp del]

definition hex_digit :: "nat \<Rightarrow> char" where
  "hex_digit d = (if d < 10 then char_of (48 + d) else char_of (87 + d))"

definition hex_int :: "nat \<Rightarrow> string" where
  "hex_int n = (if n < 16 then [hex_digit n] else [hex_digit (n div 16), hex_digit (n mod 16)])"

definition compute_md5 ::
  "'ctx \<Rightarrow> ('ctx \<Rightarrow> char list \<Rightarrow> 'ctx) \<Rightarrow> ('ctx \<Rightarrow> 8 word list) \<Rightarrow> char list option \<Rightarrow>
   error + string" where
  "compute_md5 md5_init md5_update md5_final file =
     (case file of
        None \<Rightarrow> Inl Runtime_error
      | Some content \<Rightarrow>
          Inr (concat (map (\<lambda>b. hex_int (unat b))
                 (take 16 (md5_final (md5_blocks md5_update md5_init content))))))"

section \<open>Notions used to state the properties\<close>

definition probes :: "nat \<Rightarrow> nat \<Rightarrow> nat list" where
  "probes h n = map (\<lambda>i. (h + i) mod n) [0..<n]"

definition well_formed :: "hash_table \<Rightarrow> bool" where
  "well_formed ht = (0 \<le> size_ht ht \<and> size_ht ht \<le> INT_MAX \<and>
     length (table ht) = nat (size_ht ht) \<and> length (occupied ht) = nat (size_ht ht))"

definition clear_slot :: "hash_table \<Rightarrow> nat \<Rightarrow> hash_table" where
  "clear_slot ht j =
     ht\<lparr> occupied := (occupied ht)[j := False],
         table := (table ht)[j := ('''', 0)],
         elements_count := elements_count ht - 1,
         first_index := (if int j = first_index ht then - 1 else first_index ht),
         last_index := (if int j = last_index ht then - 1 else last_index ht) \<rparr>"

definition overwrite_slot :: "hash_table \<Rightarrow> nat \<Rightarrow> 32 word \<Rightarrow> hash_table" where
  "overwrite_slot ht j v = ht\<lparr> table := (table ht)[j := (fst (table ht ! j), v)] \<rparr>"

definition fill_slot :: "hash_table \<Rightarrow> nat \<Rightarrow> string \<Rightarrow> 32 word \<Rightarrow> hash_table" where
  "fill_slot ht j key v =
     ht\<lparr> table := (table ht)[j := (key, v)],
         occupied := (occupied ht)[j := True],
         elements_count := elements_count ht + 1,
         first_index := (if first_index ht = - 1 then int j else first_index ht),
         last_index := int j \<rparr>"

definition home :: "(string \<Rightarrow> 64 word) \<Rightarrow> string \<Rightarrow> nat \<Rightarrow> nat" where
  "home hf key n = unat (hf key) mod n"

definition occupied_count :: "bool list \<Rightarrow> nat" where
  "occupied_count occ = length (filter (\<lambda>slot. slot) occ)"

definition slot_entries :: "(string \<times> 32 word) list \<Rightarrow> bool list \<Rightarrow> (string \<times> 32 word) set" where
  "slot_entries tab occ = {tab ! j | j. j < length occ \<and> occ ! j}"

definition entries :: "hash_table \<Rightarrow> (string \<times> 32 word) set" where
  "entries ht = slot_entries (table ht) (occupied ht)"

definition keys_distinct_tab :: "(string \<times> 32 word) list \<Rightarrow> bool list \<Rightarrow> bool" where
  "keys_distinct_tab tab occ =
     (\<forall>i<length occ. \<forall>j<length occ. occ ! i \<and> occ ! j \<and> fst (tab ! i) = fst (tab ! j) \<longrightarrow> i = j)"

definition keys_distinct :: "hash_table \<Rightarrow> bool" where
  "keys_distinct ht = keys_distinct_tab (table ht) (occupied ht)"

datatype operation = Insert string "32 word" | Remove string

fun run_ops ::
  "(string \<Rightarrow> 64 word) \<Rightarrow> hash_table \<Rightarrow> operation list \<Rightarrow> (error + hash_table) option" where
  "run_ops hash_fn ht [] = Some (Inr ht)"
| "run_ops hash_fn ht (Insert key v # ops) =
     (case insert_ht hash_fn ht key v of
        Some (Inr ht') \<Rightarrow> run_ops hash_fn ht' ops
      | r \<Rightarrow> r)"
| "run_ops hash_fn ht (Remove key # ops) =
     (case remove_ht hash_fn ht key of
        Inr ht' \<Rightarrow> run_ops hash_fn ht' ops
      | Inl e \<Rightarrow> Some (Inl e))"

fun get_as_specified_loop :: "nat \<Rightarrow> int \<Rightarrow> hash_table \<Rightarrow> string \<Rightarrow> error + 32 word" where
  "get_as_specified_loop 0 index ht key = Inl Invalid_argument"
| "get_as_specified_loop (Suc n) index ht key =
     (if \<not> slot_ok ht index then Inl Undefined_behaviour
      else if \<not> occupied ht ! nat index then Inl Invalid_argument
      else if fst (table ht ! nat index) = key then Inr (snd (table ht ! nat index))
      else get_as_specified_loop n ((index + 1) smod size_ht ht) ht key)"

definition get_as_specified :: "(string \<Rightarrow> 64 word) \<Rightarrow> hash_table \<Rightarrow> string \<Rightarrow> error + 32 word" where
  "get_as_specified hash_fn ht key =
     (case hash hash_fn key (size_ht ht) of
        Inl e \<Rightarrow> Inl e
      | Inr index \<Rightarrow> get_as_specified_loop (nat (size_ht ht)) index ht key)"

definition probe_index :: "(string \<Rightarrow> 64 word) \<Rightarrow> string \<Rightarrow> nat \<Rightarrow> nat \<Rightarrow> nat" where
  "probe_index hf key n i = (home hf key n + i) mod n"

definition holds_key :: "hash_table \<Rightarrow> string \<Rightarrow> nat \<Rightarrow> bool" where
  "holds_key ht key j = (occupied ht ! j \<and> fst (table ht ! j) = key)"

definition no_holes :: "(string \<Rightarrow> 64 word) \<Rightarrow> hash_table \<Rightarrow> bool" where
  "no_holes hf ht =
     (\<forall>j<nat (size_ht ht). occupied ht ! j \<longrightarrow>
        (\<exists>i<nat (size_ht ht).
           probe_index hf (fst (table ht ! j)) (nat (size_ht ht)) i = j \<and>
           (\<forall>i'<i. occupied ht ! probe_index hf (fst (table ht ! j)) (nat (size_ht ht)) i')))"

text \<open>
  The digest of the empty message, which \<^verbatim>\<open>MD5_Final\<close> yields on a context that no
  \<^verbatim>\<open>MD5_Update\<close> has touched (RFC 1321, test suite:
  \<^verbatim>\<open>MD5("") = d41d8cd98f00b204e9800998ecf8427e\<close>).
\<close>

definition md5_of_empty_input :: "8 word list" where
  "md5_of_empty_input =
     [0xd4, 0x1d, 0x8c, 0xd9, 0x8f, 0x00, 0xb2, 0x04, 0xe9, 0x80, 0x09, 0x98, 0xec, 0xf8, 0x42, 0x7e]"

text \<open>
  The invariant of the store: the vectors have the length of the capacity, the count is
  the number of occupied slots, and the first and last index are -1 or an index of the
  table. \<open>keys_within L\<close> bounds the length of the key field of every slot.
  \<open>put_slots i es\<close> writes the entries \<open>es\<close> into the slots from index \<open>i\<close> on, as the
  loop of \<^verbatim>\<open>load_from_file\<close> does. \<open>load_completes\<close> says that \<^verbatim>\<open>load_from_file\<close> has read
  the header and that its slot loop ran to the end, through none of its \<^verbatim>\<open>break\<close>s: the
  load was not truncated.
\<close>

definition store_inv :: "hash_table \<Rightarrow> bool" where
  "store_inv ht =
     (well_formed ht \<and> elements_count ht = int (occupied_count (occupied ht)) \<and>
      - 1 \<le> first_index ht \<and> first_index ht < size_ht ht \<and>
      - 1 \<le> last_index ht \<and> last_index ht < size_ht ht)"

definition keys_within :: "nat \<Rightarrow> hash_table \<Rightarrow> bool" where
  "keys_within L ht = (\<forall>e\<in>set (table ht). length (fst e) \<le> L)"

fun put_slots :: "nat \<Rightarrow> ((string \<times> 32 word) \<times> bool) list \<Rightarrow> hash_table \<Rightarrow> hash_table" where
  "put_slots i [] ht = ht"
| "put_slots i ((e, is_occupied) # es) ht =
     put_slots (Suc i) es
       (ht\<lparr> occupied := (occupied ht)[i := is_occupied], table := (table ht)[i := e] \<rparr>)"

definition load_completes :: "char list \<Rightarrow> hash_table \<Rightarrow> bool" where
  "load_completes content ht =
     (case load_header content ht of
        (ht1, None) \<Rightarrow> False
      | (ht4, Some rest) \<Rightarrow>
          (case load_slots rest ht4 of
             Inl e \<Rightarrow> False
           | Inr (completed, ht5) \<Rightarrow> completed))"

section \<open>Properties of the slot store\<close>

lemma unat_word_of_int_small:
  "0 \<le> ts \<Longrightarrow> ts \<le> INT_MAX \<Longrightarrow> unat (word_of_int ts :: 64 word) = nat ts"
  by (simp add: unat_eq_nat_uint uint_word_of_int take_bit_eq_mod INT_MAX_def)

lemma sint_ucast_small:
  assumes "unat (x :: 64 word) < 2147483648"
  shows "sint (ucast x :: 32 word) = int (unat x)"
proof -
  have "(ucast x :: 32 word) = word_of_int (int (unat x))"
    by simp
  then have "sint (ucast x :: 32 word) = signed_take_bit 31 (int (unat x))"
    by (simp only: sint_sbintrunc') simp
  also have "\<dots> = int (unat x)"
  proof (rule signed_take_bit_int_eq_self)
    show "- (2 ^ 31) \<le> int (unat x)" by (rule order_trans [where y = 0]) simp_all
    have "int (unat x) < int 2147483648"
      using assms by (simp only: of_nat_less_iff)
    then show "int (unat x) < 2 ^ 31" by simp
  qed
  finally show ?thesis .
qed

lemma smod_nonneg: "0 \<le> a \<Longrightarrow> 0 < b \<Longrightarrow> (a::int) smod b = a mod b"
  by (simp add: smod_mod_positive)

lemma hash_in_range:
  assumes "0 < ts" "ts \<le> INT_MAX"
  shows "hash hf key ts = Inr (int (unat (hf key) mod nat ts))"
proof -
  have m: "unat (word_of_int ts :: 64 word) = nat ts"
    using assms by (simp add: unat_word_of_int_small)
  have "unat (hf key) mod nat ts < nat ts"
    using assms by simp
  also have "nat ts < 2147483648"
    using assms by (simp add: INT_MAX_def)
  finally have "unat (hf key mod (word_of_int ts :: 64 word)) < 2147483648"
    by (simp add: unat_mod m)
  then show ?thesis
    using assms by (simp add: hash_def sint_ucast_small unat_mod m)
qed

lemma next_index: "0 < n \<Longrightarrow> (int (a mod n) + 1) smod int n = int (Suc a mod n)"
proof -
  assume n: "0 < n"
  have "(int (a mod n) + 1) smod int n = (int (a mod n) + 1) mod int n"
    by (rule smod_mod_positive) simp_all
  also have "\<dots> = int (Suc (a mod n) mod n)"
    by (simp add: zmod_int add.commute)
  also have "\<dots> = int (Suc a mod n)"
    by (simp add: mod_Suc_eq)
  finally show ?thesis .
qed

lemma slot_ok_probe:
  "length (table ht) = n \<Longrightarrow> length (occupied ht) = n \<Longrightarrow> 0 < n \<Longrightarrow>
   slot_ok ht (int (a mod n))"
  by (simp add: slot_ok_def)

lemma get_loop_probe:
  assumes "length (table ht) = n" "length (occupied ht) = n" "size_ht ht = int n" "0 < n"
  shows "get_loop k (int ((h + i) mod n)) ht key =
    (case find (\<lambda>j. occupied ht ! j \<and> fst (table ht ! j) = key)
            (map (\<lambda>i. (h + i) mod n) [i..<i + k]) of
       None \<Rightarrow> Inl Invalid_argument
     | Some j \<Rightarrow> Inr (snd (table ht ! j)))"
proof (induction k arbitrary: i)
  case 0
  show ?case by simp
next
  case (Suc k)
  have l: "[i..<Suc (i + k)] = i # [Suc i..<Suc (i + k)]"
    by (simp add: upt_conv_Cons)
  have nx: "(int ((h + i) mod n) + 1) smod int n = int ((h + Suc i) mod n)"
    using next_index [OF assms(4), of "h + i"] by simp
  show ?case
    using Suc.IH [of "Suc i"] assms
    by (simp add: l nx slot_ok_probe del: upt_Suc)
qed

lemma remove_loop_probe:
  assumes "length (table ht) = n" "length (occupied ht) = n" "size_ht ht = int n" "0 < n"
  shows "remove_loop k (int ((h + i) mod n)) ht key =
    (case find (\<lambda>j. occupied ht ! j \<and> fst (table ht ! j) = key)
            (map (\<lambda>i. (h + i) mod n) [i..<i + k]) of
       None \<Rightarrow> Inl Invalid_argument
     | Some j \<Rightarrow>
         if elements_count ht \<le> INT_MIN then Inl Undefined_behaviour
         else Inr (clear_slot ht j))"
proof (induction k arbitrary: i)
  case 0
  show ?case by simp
next
  case (Suc k)
  have l: "[i..<Suc (i + k)] = i # [Suc i..<Suc (i + k)]"
    by (simp add: upt_conv_Cons)
  have nx: "(int ((h + i) mod n) + 1) smod int n = int ((h + Suc i) mod n)"
    using next_index [OF assms(4), of "h + i"] by simp
  show ?case
    using Suc.IH [of "Suc i"] assms
    by (simp add: l nx slot_ok_probe clear_slot_def del: upt_Suc)
qed

lemma insert_loop_probe:
  assumes "length (table ht) = n" "length (occupied ht) = n" "size_ht ht = int n" "0 < n"
  shows "insert_loop k (int ((h + i) mod n)) ht key v =
    (case find (\<lambda>j. \<not> occupied ht ! j \<or> fst (table ht ! j) = key)
            (map (\<lambda>i. (h + i) mod n) [i..<i + k]) of
       None \<Rightarrow> Inl Overflow_error
     | Some j \<Rightarrow>
         if occupied ht ! j then Inr (overwrite_slot ht j v)
         else if INT_MAX \<le> elements_count ht then Inl Undefined_behaviour
         else Inr (fill_slot ht j key v))"
proof (induction k arbitrary: i)
  case 0
  show ?case by simp
next
  case (Suc k)
  have l: "[i..<Suc (i + k)] = i # [Suc i..<Suc (i + k)]"
    by (simp add: upt_conv_Cons)
  have nx: "(int ((h + i) mod n) + 1) smod int n = int ((h + Suc i) mod n)"
    using next_index [OF assms(4), of "h + i"] by simp
  show ?case
    using Suc.IH [of "Suc i"] assms
    by (simp add: l nx slot_ok_probe overwrite_slot_def fill_slot_def del: upt_Suc)
qed

lemma linear_probe_loop_probe:
  assumes "length occ = n" "0 < n" "h < n" "i < n"
  shows "linear_probe_loop (int h) (int ((h + i) mod n)) (int n) occ =
    Some (case find (\<lambda>j. \<not> occ ! j) (map (\<lambda>i. (h + i) mod n) [i..<n]) of
       None \<Rightarrow> Inl Overflow_error
     | Some j \<Rightarrow> Inr (int j))"
  using assms(4)
proof (induction "n - i" arbitrary: i)
  case 0
  then show ?case by simp
next
  case (Suc d)
  have l: "[i..<n] = i # [Suc i..<n]"
    using Suc.prems by (simp add: upt_conv_Cons)
  have nx: "(int ((h + i) mod n) + 1) smod int n = int ((h + Suc i) mod n)"
    using next_index [OF assms(2), of "h + i"] by simp
  have "(h + i) mod n < n"
    using assms(2) by (rule mod_less_divisor)
  then have inr: "\<not> int ((h + i) mod n) < 0" "\<not> length occ \<le> (h + i) mod n"
    using assms(1) by simp_all
  show ?case
  proof (cases "Suc i = n")
    case True
    then have "(h + Suc i) mod n = h" using assms by simp
    then show ?thesis
      using inr assms True
      by (subst linear_probe_loop.simps) (simp add: l nx del: upt_Suc)
  next
    case False
    then have lt: "Suc i < n" using Suc.prems by simp
    have ne: "(h + Suc i) mod n \<noteq> h"
    proof (cases "h + Suc i < n")
      case True
      then show ?thesis by simp
    next
      case False
      then have "(h + Suc i) mod n = h + Suc i - n"
        using assms(3) lt by (simp add: le_mod_geq)
      then show ?thesis using False lt by simp
    qed
    have d: "d = n - Suc i" using Suc.hyps(2) by simp
    show ?thesis
      using inr assms ne Suc.hyps(1) [OF d lt]
      by (subst linear_probe_loop.simps) (simp add: l nx del: upt_Suc)
  qed
qed

lemma probes_0: "probes h n = map (\<lambda>i. (h + i) mod n) [0..<0 + n]"
  by (simp add: probes_def)

lemma set_probes: "set (probes h n) = {0..<n}"
proof (cases "n = 0")
  case True
  then show ?thesis by (simp add: probes_def)
next
  case False
  then have n: "0 < n" by simp
  show ?thesis
  proof (intro set_eqI iffI)
    fix j
    assume "j \<in> set (probes h n)"
    then show "j \<in> {0..<n}" using n by (auto simp: probes_def)
  next
    fix j
    assume "j \<in> {0..<n}"
    then have j: "j < n" by simp
    define i where "i = (j + (n - h mod n)) mod n"
    have "i < n" using n by (simp add: i_def)
    moreover have "(h + i) mod n = j"
    proof -
      have "(h + i) mod n = (h mod n + (j + (n - h mod n))) mod n"
        unfolding i_def by (simp add: mod_add_eq mod_add_right_eq mod_add_left_eq)
      also have "h mod n + (j + (n - h mod n)) = j + n"
        using mod_less_divisor [OF n, of h] by simp
      finally show ?thesis using j by simp
    qed
    ultimately show "j \<in> set (probes h n)"
      by (auto simp: probes_def intro!: image_eqI [where x = i])
  qed
qed

lemma length_probes: "length (probes h n) = n"
  by (simp add: probes_def)

lemma distinct_probes: "distinct (probes h n)"
  by (rule card_distinct) (simp add: set_probes length_probes)

lemma get_spec:
  assumes "well_formed ht" "0 < size_ht ht"
  shows "get hf ht key =
    (case find (\<lambda>j. occupied ht ! j \<and> fst (table ht ! j) = key)
            (probes (home hf key (nat (size_ht ht))) (nat (size_ht ht))) of
       None \<Rightarrow> Inl Invalid_argument
     | Some j \<Rightarrow> Inr (snd (table ht ! j)))"
proof -
  define n where "n = nat (size_ht ht)"
  have n: "0 < n" "size_ht ht = int n" "length (table ht) = n" "length (occupied ht) = n"
    using assms by (simp_all add: n_def well_formed_def)
  have h: "hash hf key (size_ht ht) = Inr (int (home hf key n))"
    using assms by (simp add: hash_in_range well_formed_def home_def n_def)
  have hn: "home hf key n < n" using n(1) by (simp add: home_def)
  show ?thesis
    using get_loop_probe [OF n(3) n(4) n(2) n(1), of n "home hf key n" 0 key] hn
    by (simp add: get_def h probes_0 flip: n_def)
qed

lemma remove_spec:
  assumes "well_formed ht" "0 < size_ht ht"
  shows "remove_ht hf ht key =
    (case find (\<lambda>j. occupied ht ! j \<and> fst (table ht ! j) = key)
            (probes (home hf key (nat (size_ht ht))) (nat (size_ht ht))) of
       None \<Rightarrow> Inl Invalid_argument
     | Some j \<Rightarrow>
         if elements_count ht \<le> INT_MIN then Inl Undefined_behaviour
         else Inr (clear_slot ht j))"
proof -
  define n where "n = nat (size_ht ht)"
  have n: "0 < n" "size_ht ht = int n" "length (table ht) = n" "length (occupied ht) = n"
    using assms by (simp_all add: n_def well_formed_def)
  have h: "hash hf key (size_ht ht) = Inr (int (home hf key n))"
    using assms by (simp add: hash_in_range well_formed_def home_def n_def)
  have hn: "home hf key n < n" using n(1) by (simp add: home_def)
  show ?thesis
    using remove_loop_probe [OF n(3) n(4) n(2) n(1), of n "home hf key n" 0 key] hn
    by (simp add: remove_ht_def h probes_0 flip: n_def)
qed

lemma insert_probe_spec:
  assumes "well_formed ht" "0 < size_ht ht"
  shows "(case hash hf key (size_ht ht) of
             Inl e \<Rightarrow> Some (Inl e)
           | Inr index \<Rightarrow> Some (insert_loop (nat (size_ht ht)) index ht key v)) =
    Some (case find (\<lambda>j. \<not> occupied ht ! j \<or> fst (table ht ! j) = key)
            (probes (home hf key (nat (size_ht ht))) (nat (size_ht ht))) of
       None \<Rightarrow> Inl Overflow_error
     | Some j \<Rightarrow>
         if occupied ht ! j then Inr (overwrite_slot ht j v)
         else if INT_MAX \<le> elements_count ht then Inl Undefined_behaviour
         else Inr (fill_slot ht j key v))"
proof -
  define n where "n = nat (size_ht ht)"
  have n: "0 < n" "size_ht ht = int n" "length (table ht) = n" "length (occupied ht) = n"
    using assms by (simp_all add: n_def well_formed_def)
  have h: "hash hf key (size_ht ht) = Inr (int (home hf key n))"
    using assms by (simp add: hash_in_range well_formed_def home_def n_def)
  have hn: "home hf key n < n" using n(1) by (simp add: home_def)
  show ?thesis
    using insert_loop_probe [OF n(3) n(4) n(2) n(1), of n "home hf key n" 0 key v] hn
    by (simp add: h probes_0 flip: n_def)
qed

lemma linear_probe_spec:
  assumes "length occ = n" "h < n"
  shows "linear_probe (int h) (int n) occ =
    Some (case find (\<lambda>j. \<not> occ ! j) (probes h n) of
       None \<Rightarrow> Inl Overflow_error
     | Some j \<Rightarrow> Inr (int j))"
proof -
  have n: "0 < n" using assms by simp
  show ?thesis
    using linear_probe_loop_probe [OF assms(1) n assms(2) n] assms(2)
    by (simp add: linear_probe_def probes_def)
qed

lemma occupied_count_all: "occupied_count occ = length occ \<Longrightarrow> j < length occ \<Longrightarrow> occ ! j"
proof (induction occ arbitrary: j)
  case Nil
  then show ?case by simp
next
  case (Cons a occ)
  have le: "length (filter (\<lambda>slot. slot) occ) \<le> length occ" by simp
  show ?case
  proof (cases a)
    case True
    then show ?thesis using Cons by (cases j) (simp_all add: occupied_count_def)
  next
    case False
    then show ?thesis using Cons.prems le by (simp add: occupied_count_def)
  qed
qed

lemma occupied_count_le: "occupied_count occ \<le> length occ"
  by (simp add: occupied_count_def)

lemma free_slot_exists:
  assumes "occupied_count occ < length occ"
  shows "\<exists>j<length occ. \<not> occ ! j"
proof (rule ccontr)
  assume "\<not> (\<exists>j<length occ. \<not> occ ! j)"
  then have "\<forall>x\<in>set occ. x" by (auto simp: in_set_conv_nth)
  then have "filter (\<lambda>slot. slot) occ = occ" by (simp add: filter_id_conv)
  then show False using assms by (simp add: occupied_count_def)
qed

lemma occupied_count_set:
  "p < length occ \<Longrightarrow> \<not> occ ! p \<Longrightarrow> occupied_count (occ[p := True]) = Suc (occupied_count occ)"
proof (induction occ arbitrary: p)
  case Nil
  then show ?case by simp
next
  case (Cons a occ)
  then show ?case by (cases p) (simp_all add: occupied_count_def)
qed

lemma occupied_count_clear:
  "p < length occ \<Longrightarrow> occ ! p \<Longrightarrow> Suc (occupied_count (occ[p := False])) = occupied_count occ"
proof (induction occ arbitrary: p)
  case Nil
  then show ?case by simp
next
  case (Cons a occ)
  then show ?case by (cases p) (simp_all add: occupied_count_def)
qed

lemma find_free_probe:
  assumes "length occ = n" "occupied_count occ < n"
  obtains p where "find (\<lambda>j. \<not> occ ! j) (probes h n) = Some p" "p < n" "\<not> occ ! p"
proof -
  obtain j where j: "j < n" "\<not> occ ! j"
    using free_slot_exists [of occ] assms by auto
  then have "j \<in> set (probes h n)" by (simp add: set_probes)
  then have "find (\<lambda>j. \<not> occ ! j) (probes h n) \<noteq> None"
    using j by (auto simp: find_None_iff)
  then obtain p where p: "find (\<lambda>j. \<not> occ ! j) (probes h n) = Some p" by auto
  then have "p \<in> set (probes h n)" "\<not> occ ! p"
    by (auto simp: find_Some_iff)
  then show ?thesis using that p by (simp add: set_probes)
qed

lemma resize_loop_skip:
  assumes "i < length (table ht)" "i < length (occupied ht)" "\<not> occupied ht ! i"
  shows "resize_loop hf ht new_size (i # is) (nt, no, nf, nl) =
         resize_loop hf ht new_size is (nt, no, nf, nl)"
  using assms by (simp add: slot_ok_def)

lemma resize_loop_place:
  assumes "i < length (table ht)" "i < length (occupied ht)" "occupied ht ! i"
    and "length no = n" "0 < n" "int n \<le> INT_MAX"
    and "find (\<lambda>j. \<not> no ! j) (probes (home hf (fst (table ht ! i)) n) n) = Some p"
  shows "resize_loop hf ht (int n) (i # is) (nt, no, nf, nl) =
         resize_loop hf ht (int n) is
           (nt[p := table ht ! i], no[p := True],
            (if int i = first_index ht then int p else nf), int p)"
proof -
  have h: "hash hf (fst (table ht ! i)) (int n) = Inr (int (home hf (fst (table ht ! i)) n))"
    using assms by (simp add: hash_in_range home_def)
  have hn: "home hf (fst (table ht ! i)) n < n"
    using assms(5) by (simp add: home_def)
  show ?thesis
    using assms by (simp add: slot_ok_def h linear_probe_spec [OF assms(4) hn])
qed

lemma slot_entries_fill:
  assumes "p < length occ" "length tab = length occ" "\<not> occ ! p"
  shows "slot_entries (tab[p := e]) (occ[p := True]) = insert e (slot_entries tab occ)"
proof (intro set_eqI iffI)
  fix x
  assume "x \<in> slot_entries (tab[p := e]) (occ[p := True])"
  then obtain j where j: "j < length occ" "(occ[p := True]) ! j" "x = tab[p := e] ! j"
    by (auto simp: slot_entries_def)
  show "x \<in> insert e (slot_entries tab occ)"
  proof (cases "j = p")
    case True
    then show ?thesis using j assms by simp
  next
    case False
    then have "occ ! j" "x = tab ! j" using j by simp_all
    then show ?thesis using j(1) by (auto simp: slot_entries_def)
  qed
next
  fix x
  assume "x \<in> insert e (slot_entries tab occ)"
  then consider "x = e" | j where "j < length occ" "occ ! j" "x = tab ! j"
    by (auto simp: slot_entries_def)
  then show "x \<in> slot_entries (tab[p := e]) (occ[p := True])"
  proof cases
    case 1
    have "p < length (occ[p := True])" "(occ[p := True]) ! p" "e = tab[p := e] ! p"
      using assms by simp_all
    then show ?thesis unfolding slot_entries_def 1 by blast
  next
    case 2
    then have "j \<noteq> p" using assms by auto
    then have "j < length (occ[p := True])" "(occ[p := True]) ! j" "x = tab[p := e] ! j"
      using 2 by simp_all
    then show ?thesis unfolding slot_entries_def by blast
  qed
qed

lemma resize_loop_result:
  assumes "length nt = n" "length no = n" "0 < n" "int n \<le> INT_MAX"
    and "\<forall>i\<in>set is. i < length (table ht) \<and> i < length (occupied ht)"
    and "occupied_count no + length is < n"
    and "- 1 \<le> nf \<and> nf < int n" "- 1 \<le> nl \<and> nl < int n"
  shows "\<exists>nt' no' nf' nl'.
    resize_loop hf ht (int n) is (nt, no, nf, nl) = Some (Inr (nt', no', nf', nl')) \<and>
    length nt' = n \<and> length no' = n \<and>
    occupied_count no' = occupied_count no + length (filter (\<lambda>i. occupied ht ! i) is) \<and>
    slot_entries nt' no' = slot_entries nt no \<union> {table ht ! i | i. i \<in> set is \<and> occupied ht ! i} \<and>
    - 1 \<le> nf' \<and> nf' < int n \<and> - 1 \<le> nl' \<and> nl' < int n"
  using assms
proof (induction "is" arbitrary: nt no nf nl)
  case Nil
  then show ?case by simp
next
  case (Cons i "is")
  have i: "i < length (table ht)" "i < length (occupied ht)"
    using Cons.prems(5) by simp_all
  have rest: "\<forall>i\<in>set is. i < length (table ht) \<and> i < length (occupied ht)"
    using Cons.prems(5) by simp
  show ?case
  proof (cases "occupied ht ! i")
    case False
    have c: "occupied_count no + length is < n" using Cons.prems(6) by simp
    obtain nt' no' nf' nl' where r:
      "resize_loop hf ht (int n) is (nt, no, nf, nl) = Some (Inr (nt', no', nf', nl'))"
      "length nt' = n" "length no' = n"
      "occupied_count no' = occupied_count no + length (filter (\<lambda>i. occupied ht ! i) is)"
      "slot_entries nt' no' = slot_entries nt no \<union> {table ht ! i | i. i \<in> set is \<and> occupied ht ! i}"
      "- 1 \<le> nf'" "nf' < int n" "- 1 \<le> nl'" "nl' < int n"
      using Cons.IH [OF Cons.prems(1-4) rest c Cons.prems(7,8)] by blast
    have e: "{table ht ! i' | i'. i' \<in> set (i # is) \<and> occupied ht ! i'} =
             {table ht ! i' | i'. i' \<in> set is \<and> occupied ht ! i'}"
      using False by auto
    show ?thesis
      unfolding resize_loop_skip [OF i False] e
      using r False by simp
  next
    case True
    have c0: "occupied_count no < n" using Cons.prems(6) by simp
    obtain p where p:
      "find (\<lambda>j. \<not> no ! j) (probes (home hf (fst (table ht ! i)) n) n) = Some p"
      "p < n" "\<not> no ! p"
      using find_free_probe [OF Cons.prems(2) c0] by blast
    let ?nt = "nt[p := table ht ! i]" and ?no = "no[p := True]"
    let ?nf = "if int i = first_index ht then int p else nf"
    have cnt: "occupied_count ?no = Suc (occupied_count no)"
      using p Cons.prems(2) by (simp add: occupied_count_set)
    have c: "occupied_count ?no + length is < n"
      using Cons.prems(6) cnt by simp
    have l: "length ?nt = n" "length ?no = n" using Cons.prems(1,2) by simp_all
    have rf: "- 1 \<le> ?nf \<and> ?nf < int n" using Cons.prems(7) p(2) by simp
    have rl: "- 1 \<le> int p \<and> int p < int n" using p(2) by simp
    obtain nt' no' nf' nl' where r:
      "resize_loop hf ht (int n) is (?nt, ?no, ?nf, int p) = Some (Inr (nt', no', nf', nl'))"
      "length nt' = n" "length no' = n"
      "occupied_count no' = occupied_count ?no + length (filter (\<lambda>i. occupied ht ! i) is)"
      "slot_entries nt' no' = slot_entries ?nt ?no \<union> {table ht ! i | i. i \<in> set is \<and> occupied ht ! i}"
      "- 1 \<le> nf'" "nf' < int n" "- 1 \<le> nl'" "nl' < int n"
      using Cons.IH [OF l Cons.prems(3,4) rest c rf rl] by blast
    have se: "slot_entries ?nt ?no = insert (table ht ! i) (slot_entries nt no)"
      using p Cons.prems(1,2) by (simp add: slot_entries_fill)
    have e: "{table ht ! i' | i'. i' \<in> set (i # is) \<and> occupied ht ! i'} =
             insert (table ht ! i) {table ht ! i' | i'. i' \<in> set is \<and> occupied ht ! i'}"
      using True by auto
    show ?thesis
      unfolding resize_loop_place [OF i True Cons.prems(2,3,4) p(1)] e
      using r True cnt se by simp
  qed
qed

lemma keys_distinct_tab_fill:
  assumes "keys_distinct_tab tab occ" "p < length occ" "length tab = length occ" "\<not> occ ! p"
    and "fst e \<notin> fst ` slot_entries tab occ"
  shows "keys_distinct_tab (tab[p := e]) (occ[p := True])"
  unfolding keys_distinct_tab_def
proof (intro allI impI)
  fix i j
  assume i: "i < length (occ[p := True])" and j: "j < length (occ[p := True])"
    and h: "occ[p := True] ! i \<and> occ[p := True] ! j \<and> fst (tab[p := e] ! i) = fst (tab[p := e] ! j)"
  have other: "fst (tab ! k) \<noteq> fst e" if "k < length occ" "occ ! k" for k
  proof
    assume "fst (tab ! k) = fst e"
    moreover have "tab ! k \<in> slot_entries tab occ"
      using that by (auto simp: slot_entries_def)
    ultimately show False using assms(5) by (metis image_eqI)
  qed
  show "i = j"
  proof (cases "i = p")
    case True
    show ?thesis
    proof (cases "j = p")
      case True
      then show ?thesis using \<open>i = p\<close> by simp
    next
      case False
      then have "occ ! j" "fst (tab ! j) = fst e"
        using h j True assms(2,3) by simp_all
      then show ?thesis using other [of j] j by simp
    qed
  next
    case False
    show ?thesis
    proof (cases "j = p")
      case True
      then have "occ ! i" "fst (tab ! i) = fst e"
        using h i False assms(2,3) by simp_all
      then show ?thesis using other [of i] i by simp
    next
      case jp: False
      then have "occ ! i" "occ ! j" "fst (tab ! i) = fst (tab ! j)"
        using h False by simp_all
      then show ?thesis
        using assms(1) i j unfolding keys_distinct_tab_def by simp
    qed
  qed
qed

lemma resize_loop_distinct:
  assumes "length nt = n" "length no = n" "0 < n" "int n \<le> INT_MAX"
    and "\<forall>i\<in>set is. i < length (table ht) \<and> i < length (occupied ht)"
    and "occupied_count no + length is < n"
    and "keys_distinct_tab nt no" "distinct is"
    and "\<forall>i\<in>set is. \<forall>i'\<in>set is. occupied ht ! i \<and> occupied ht ! i' \<and>
           fst (table ht ! i) = fst (table ht ! i') \<longrightarrow> i = i'"
    and "\<forall>i\<in>set is. occupied ht ! i \<longrightarrow> fst (table ht ! i) \<notin> fst ` slot_entries nt no"
    and "resize_loop hf ht (int n) is (nt, no, nf, nl) = Some (Inr (nt', no', nf', nl'))"
  shows "keys_distinct_tab nt' no'"
  using assms
proof (induction "is" arbitrary: nt no nf nl)
  case Nil
  then show ?case by simp
next
  case (Cons i "is")
  have i: "i < length (table ht)" "i < length (occupied ht)"
    using Cons.prems(5) by simp_all
  have rest: "\<forall>i\<in>set is. i < length (table ht) \<and> i < length (occupied ht)"
    using Cons.prems(5) by simp
  have d: "distinct is" "i \<notin> set is" using Cons.prems(8) by simp_all
  have k: "\<forall>i\<in>set is. \<forall>i'\<in>set is. occupied ht ! i \<and> occupied ht ! i' \<and>
           fst (table ht ! i) = fst (table ht ! i') \<longrightarrow> i = i'"
    using Cons.prems(9) by simp
  show ?case
  proof (cases "occupied ht ! i")
    case False
    have c: "occupied_count no + length is < n" using Cons.prems(6) by simp
    have f: "\<forall>i\<in>set is. occupied ht ! i \<longrightarrow> fst (table ht ! i) \<notin> fst ` slot_entries nt no"
      using Cons.prems(10) by simp
    have r: "resize_loop hf ht (int n) is (nt, no, nf, nl) = Some (Inr (nt', no', nf', nl'))"
      using Cons.prems(11) unfolding resize_loop_skip [OF i False] .
    show ?thesis
      by (rule Cons.IH [OF Cons.prems(1-4) rest c Cons.prems(7) d(1) k f r])
  next
    case True
    have c0: "occupied_count no < n" using Cons.prems(6) by simp
    obtain p where p:
      "find (\<lambda>j. \<not> no ! j) (probes (home hf (fst (table ht ! i)) n) n) = Some p"
      "p < n" "\<not> no ! p"
      using find_free_probe [OF Cons.prems(2) c0] by blast
    let ?nt = "nt[p := table ht ! i]" and ?no = "no[p := True]"
    let ?nf = "if int i = first_index ht then int p else nf"
    have cnt: "occupied_count ?no = Suc (occupied_count no)"
      using p Cons.prems(2) by (simp add: occupied_count_set)
    have c: "occupied_count ?no + length is < n"
      using Cons.prems(6) cnt by simp
    have l: "length ?nt = n" "length ?no = n" using Cons.prems(1,2) by simp_all
    have se: "slot_entries ?nt ?no = insert (table ht ! i) (slot_entries nt no)"
      using p Cons.prems(1,2) by (simp add: slot_entries_fill)
    have fresh: "fst (table ht ! i) \<notin> fst ` slot_entries nt no"
      using Cons.prems(10) True by simp
    have kd: "keys_distinct_tab ?nt ?no"
      using keys_distinct_tab_fill [OF Cons.prems(7) _ _ p(3) fresh] p(2) Cons.prems(1,2)
      by simp
    have f: "\<forall>i'\<in>set is. occupied ht ! i' \<longrightarrow> fst (table ht ! i') \<notin> fst ` slot_entries ?nt ?no"
    proof (intro ballI impI)
      fix i'
      assume i': "i' \<in> set is" "occupied ht ! i'"
      have "fst (table ht ! i') \<noteq> fst (table ht ! i)"
        using Cons.prems(9) i' True d(2) by auto
      moreover have "fst (table ht ! i') \<notin> fst ` slot_entries nt no"
        using Cons.prems(10) i' by simp
      ultimately show "fst (table ht ! i') \<notin> fst ` slot_entries ?nt ?no"
        unfolding se by simp
    qed
    have r: "resize_loop hf ht (int n) is (?nt, ?no, ?nf, int p) = Some (Inr (nt', no', nf', nl'))"
      using Cons.prems(11) unfolding resize_loop_place [OF i True Cons.prems(2,3,4) p(1)] .
    show ?thesis
      by (rule Cons.IH [OF l Cons.prems(3,4) rest c kd d(1) k f r])
  qed
qed

lemma filter_nth_count:
  "length (filter (\<lambda>i. occ ! i) [0..<length occ]) = occupied_count occ"
proof -
  have "filter (\<lambda>slot. slot) (map (\<lambda>i. occ ! i) [0..<length occ]) =
        map (\<lambda>i. occ ! i) (filter (\<lambda>i. occ ! i) [0..<length occ])"
    by (simp add: filter_map comp_def)
  then have "length (filter (\<lambda>slot. slot) (map (\<lambda>i. occ ! i) [0..<length occ])) =
        length (filter (\<lambda>i. occ ! i) [0..<length occ])"
    by simp
  then show ?thesis by (simp add: occupied_count_def map_nth)
qed

lemma resize_result:
  assumes "well_formed ht" "size_ht ht + 2000 \<le> INT_MAX"
  shows "\<exists>ht'. resize hf ht = Some (Inr ht') \<and> well_formed ht' \<and>
    size_ht ht' = size_ht ht + 2000 \<and> elements_count ht' = elements_count ht \<and>
    occupied_count (occupied ht') = occupied_count (occupied ht) \<and>
    entries ht' = entries ht \<and>
    - 1 \<le> first_index ht' \<and> first_index ht' < size_ht ht' \<and>
    - 1 \<le> last_index ht' \<and> last_index ht' < size_ht ht' \<and>
    (keys_distinct ht \<longrightarrow> keys_distinct ht')"
proof -
  define n0 where "n0 = nat (size_ht ht)"
  define n where "n = n0 + 2000"
  have s: "size_ht ht = int n0" "length (table ht) = n0" "length (occupied ht) = n0"
    using assms(1) by (simp_all add: well_formed_def n0_def)
  have ns: "size_ht ht + 2000 = int n" by (simp add: n_def s)
  have n: "0 < n" "int n \<le> INT_MAX" using assms(2) by (simp_all add: n_def s)
  let ?nt = "replicate n ('''', 0 :: 32 word)" and ?no = "replicate n False"
  have l: "length ?nt = n" "length ?no = n" by simp_all
  have c0: "occupied_count ?no = 0" by (simp add: occupied_count_def)
  have b: "\<forall>i\<in>set [0..<n0]. i < length (table ht) \<and> i < length (occupied ht)"
    by (simp add: s)
  have c: "occupied_count ?no + length [0..<n0] < n" unfolding c0 by (simp add: n_def)
  have r0: "- 1 \<le> (- 1 :: int) \<and> - 1 < int n" by simp
  obtain nt' no' nf' nl' where r:
    "resize_loop hf ht (int n) [0..<n0] (?nt, ?no, - 1, - 1) = Some (Inr (nt', no', nf', nl'))"
    "length nt' = n" "length no' = n"
    "occupied_count no' = occupied_count ?no + length (filter (\<lambda>i. occupied ht ! i) [0..<n0])"
    "slot_entries nt' no' = slot_entries ?nt ?no \<union> {table ht ! i | i. i \<in> set [0..<n0] \<and> occupied ht ! i}"
    "- 1 \<le> nf'" "nf' < int n" "- 1 \<le> nl'" "nl' < int n"
    using resize_loop_result [OF l n b c r0 r0, of hf] by blast
  define ht' where "ht' = ht\<lparr> table := nt', occupied := no', size_ht := int n,
                            first_index := nf', last_index := nl' \<rparr>"
  have res: "resize hf ht = Some (Inr ht')"
    using n(2) r(1) by (simp add: resize_def Let_def ns ht'_def flip: n0_def)
  have e0: "slot_entries ?nt ?no = {}" by (simp add: slot_entries_def)
  have ent: "entries ht' = entries ht"
    using r(5) by (auto simp: entries_def ht'_def e0 slot_entries_def s)
  have cnt: "occupied_count (occupied ht') = occupied_count (occupied ht)"
    using r(4) filter_nth_count [of "occupied ht"] by (simp add: ht'_def c0 s)
  have kd: "keys_distinct ht'" if kd0: "keys_distinct ht"
  proof -
    have k: "\<forall>i\<in>set [0..<n0]. \<forall>i'\<in>set [0..<n0]. occupied ht ! i \<and> occupied ht ! i' \<and>
           fst (table ht ! i) = fst (table ht ! i') \<longrightarrow> i = i'"
      using kd0 by (simp add: keys_distinct_def keys_distinct_tab_def s)
    have f: "\<forall>i\<in>set [0..<n0]. occupied ht ! i \<longrightarrow> fst (table ht ! i) \<notin> fst ` slot_entries ?nt ?no"
      by (simp add: e0)
    have kd1: "keys_distinct_tab ?nt ?no" by (simp add: keys_distinct_tab_def)
    have "keys_distinct_tab nt' no'"
      by (rule resize_loop_distinct [OF l n b c kd1 _ k f r(1)]) simp
    then show ?thesis by (simp add: keys_distinct_def ht'_def)
  qed
  have "well_formed ht'" using n r(2,3) by (simp add: well_formed_def ht'_def)
  then show ?thesis
    using res ent cnt kd r(6-9) by (auto simp: ht'_def ns)
qed

lemma hash_const0 [simp]: "t \<noteq> 0 \<Longrightarrow> hash (\<lambda>_. 0) key t = Inr 0"
  by (simp add: hash_def)

lemma find_probes_Some:
  "find P (probes h n) = Some j \<longleftrightarrow>
   (\<exists>i<n. j = (h + i) mod n \<and> P j \<and> (\<forall>i'<i. \<not> P ((h + i') mod n)))"
  by (auto simp: find_Some_iff probes_def)

lemma find_probes_None:
  "find P (probes h n) = None \<longleftrightarrow> (\<forall>j<n. \<not> P j)"
  using set_probes [of h n] by (auto simp: find_None_iff)

lemma get_find:
  assumes "well_formed ht" "0 < size_ht ht"
  shows "get hf ht key =
    (case find (holds_key ht key) (probes (home hf key (nat (size_ht ht))) (nat (size_ht ht))) of
       None \<Rightarrow> Inl Invalid_argument
     | Some j \<Rightarrow> Inr (snd (table ht ! j)))"
  using get_spec [OF assms, of hf key] by (simp add: holds_key_def [abs_def])

lemma remove_find:
  assumes "well_formed ht" "0 < size_ht ht"
  shows "remove_ht hf ht key =
    (case find (holds_key ht key) (probes (home hf key (nat (size_ht ht))) (nat (size_ht ht))) of
       None \<Rightarrow> Inl Invalid_argument
     | Some j \<Rightarrow>
         if elements_count ht \<le> INT_MIN then Inl Undefined_behaviour
         else Inr (clear_slot ht j))"
  using remove_spec [OF assms, of hf key] by (simp add: holds_key_def [abs_def])

lemma hash_home:
  "0 < n \<Longrightarrow> int n \<le> INT_MAX \<Longrightarrow> hash hf key (int n) = Inr (int (home hf key n))"
  by (simp add: hash_in_range home_def)

lemma home_less: "0 < n \<Longrightarrow> home hf key n < n"
  by (simp add: home_def)

lemma probe_index_less: "0 < n \<Longrightarrow> probe_index hf key n i < n"
  by (simp add: probe_index_def)

lemma insert_ht_no_resize:
  assumes "well_formed ht" "0 < size_ht ht" "elements_count ht \<noteq> size_ht ht"
  shows "insert_ht hf ht key v =
    Some (case find (\<lambda>j. \<not> occupied ht ! j \<or> fst (table ht ! j) = key)
            (probes (home hf key (nat (size_ht ht))) (nat (size_ht ht))) of
       None \<Rightarrow> Inl Overflow_error
     | Some j \<Rightarrow>
         if occupied ht ! j then Inr (overwrite_slot ht j v)
         else if INT_MAX \<le> elements_count ht then Inl Undefined_behaviour
         else Inr (fill_slot ht j key v))"
  using assms(3) insert_probe_spec [OF assms(1,2)]
  by (simp add: insert_ht_def)

lemma insert_cases:
  assumes "well_formed ht" "0 < size_ht ht" "elements_count ht \<noteq> size_ht ht"
    and "insert_ht hf ht key v = Some (Inr ht')"
  obtains i where "i < nat (size_ht ht)"
    and "\<forall>i'<i. occupied ht ! probe_index hf key (nat (size_ht ht)) i' \<and>
                fst (table ht ! probe_index hf key (nat (size_ht ht)) i') \<noteq> key"
    and "(holds_key ht key (probe_index hf key (nat (size_ht ht)) i) \<and>
            ht' = overwrite_slot ht (probe_index hf key (nat (size_ht ht)) i) v) \<or>
         (\<not> occupied ht ! probe_index hf key (nat (size_ht ht)) i \<and>
            ht' = fill_slot ht (probe_index hf key (nat (size_ht ht)) i) key v)"
proof -
  let ?n = "nat (size_ht ht)"
  let ?Q = "\<lambda>j. \<not> occupied ht ! j \<or> fst (table ht ! j) = key"
  let ?f = "find ?Q (probes (home hf key ?n) ?n)"
  have e: "Some (Inr ht') = Some (case ?f of None \<Rightarrow> Inl Overflow_error
     | Some j \<Rightarrow>
         if occupied ht ! j then Inr (overwrite_slot ht j v)
         else if INT_MAX \<le> elements_count ht then Inl Undefined_behaviour
         else Inr (fill_slot ht j key v))"
    using insert_ht_no_resize [OF assms(1-3), of hf key v] assms(4) by simp
  then obtain p where p: "?f = Some p"
    and h: "ht' = (if occupied ht ! p then overwrite_slot ht p v else fill_slot ht p key v)"
    by (cases ?f) (auto split: if_splits)
  obtain i where i: "i < ?n" "p = (home hf key ?n + i) mod ?n" "?Q p"
      "\<forall>i'<i. \<not> ?Q ((home hf key ?n + i') mod ?n)"
    using p unfolding find_probes_Some by blast
  show ?thesis
  proof (rule that [of i])
    show "i < ?n" by (fact i(1))
    show "\<forall>i'<i. occupied ht ! probe_index hf key ?n i' \<and>
                fst (table ht ! probe_index hf key ?n i') \<noteq> key"
      using i(4) by (simp add: probe_index_def)
    show "(holds_key ht key (probe_index hf key ?n i) \<and>
            ht' = overwrite_slot ht (probe_index hf key ?n i) v) \<or>
         (\<not> occupied ht ! probe_index hf key ?n i \<and>
            ht' = fill_slot ht (probe_index hf key ?n i) key v)"
      using i(2,3) h by (auto simp: probe_index_def holds_key_def)
  qed
qed

lemma insert_succeeds:
  assumes "well_formed ht" "0 < size_ht ht" "elements_count ht \<noteq> size_ht ht"
    and "occupied_count (occupied ht) < nat (size_ht ht)" "elements_count ht < INT_MAX"
  shows "\<exists>ht'. insert_ht hf ht key v = Some (Inr ht')"
proof -
  let ?n = "nat (size_ht ht)"
  have l: "length (occupied ht) = ?n" using assms(1) by (simp add: well_formed_def)
  obtain j where "j < ?n" "\<not> occupied ht ! j"
    using free_slot_exists [of "occupied ht"] assms(4) l by auto
  then have "find (\<lambda>j. \<not> occupied ht ! j \<or> fst (table ht ! j) = key)
            (probes (home hf key ?n) ?n) \<noteq> None"
    by (auto simp: find_probes_None)
  then show ?thesis
    unfolding insert_ht_no_resize [OF assms(1-3)] using assms(5) by auto
qed

lemma well_formed_overwrite: "well_formed ht \<Longrightarrow> well_formed (overwrite_slot ht p v)"
  by (simp add: well_formed_def overwrite_slot_def)

lemma well_formed_fill: "well_formed ht \<Longrightarrow> well_formed (fill_slot ht p k v)"
  by (simp add: well_formed_def fill_slot_def)

lemma holds_key_overwrite:
  "j < length (table ht) \<Longrightarrow>
   holds_key (overwrite_slot ht p v) k j = holds_key ht k j"
  by (cases "j = p") (simp_all add: holds_key_def overwrite_slot_def)

lemma holds_key_fill:
  "j < length (table ht) \<Longrightarrow> j < length (occupied ht) \<Longrightarrow>
   holds_key (fill_slot ht p key v) k j = (if j = p then k = key else holds_key ht k j)"
  by (auto simp: holds_key_def fill_slot_def)

lemma insert_result_facts:
  assumes "well_formed ht" "0 < size_ht ht" "elements_count ht \<noteq> size_ht ht"
    and "insert_ht hf ht key v = Some (Inr ht')"
  shows "well_formed ht'" "size_ht ht' = size_ht ht"
    and "get hf ht' key = Inr v"
    and "k' \<noteq> key \<Longrightarrow> get hf ht' k' = get hf ht k'"
proof -
  let ?n = "nat (size_ht ht)"
  have l: "length (table ht) = ?n" "length (occupied ht) = ?n"
    using assms(1) by (simp_all add: well_formed_def)
  have n: "0 < ?n" using assms(2) by simp
  obtain i where i: "i < ?n"
    and before: "\<forall>i'<i. occupied ht ! probe_index hf key ?n i' \<and>
                fst (table ht ! probe_index hf key ?n i') \<noteq> key"
    and cases: "(holds_key ht key (probe_index hf key ?n i) \<and>
            ht' = overwrite_slot ht (probe_index hf key ?n i) v) \<or>
         (\<not> occupied ht ! probe_index hf key ?n i \<and>
            ht' = fill_slot ht (probe_index hf key ?n i) key v)"
    using insert_cases [OF assms] by blast
  let ?p = "probe_index hf key ?n i"
  have pn: "?p < ?n" using n by (rule probe_index_less)
  show wf': "well_formed ht'"
    using cases assms(1) by (auto simp: well_formed_overwrite well_formed_fill)
  show sz: "size_ht ht' = size_ht ht"
    using cases by (auto simp: overwrite_slot_def fill_slot_def)
  have hp: "holds_key ht' key ?p" "snd (table ht' ! ?p) = v"
    using cases pn l by (auto simp: holds_key_def overwrite_slot_def fill_slot_def)
  have nb: "\<not> holds_key ht' key (probe_index hf key ?n i')" if "i' < i" for i'
  proof -
    let ?q = "probe_index hf key ?n i'"
    have q: "occupied ht ! ?q" "fst (table ht ! ?q) \<noteq> key" using before that by simp_all
    have qn: "?q < ?n" using n by (rule probe_index_less)
    have "?q \<noteq> ?p" using q cases by (auto simp: holds_key_def)
    then have "holds_key ht' key ?q = holds_key ht key ?q"
      using cases qn l by (auto simp: holds_key_overwrite holds_key_fill)
    then show ?thesis
      using q by (simp add: holds_key_def)
  qed
  have "find (holds_key ht' key) (probes (home hf key ?n) ?n) = Some ?p"
    unfolding find_probes_Some using i hp(1) nb by (auto simp: probe_index_def)
  then show "get hf ht' key = Inr v"
    using get_find [OF wf', of hf key] assms(2) hp(2) by (simp add: sz)
  show "get hf ht' k' = get hf ht k'" if ne: "k' \<noteq> key"
  proof -
    have same: "holds_key ht' k' j = holds_key ht k' j" if "j < ?n" for j
    proof (cases "j = ?p")
      case True
      have "\<not> holds_key ht' k' ?p" using hp(1) ne by (simp add: holds_key_def)
      moreover have "\<not> holds_key ht k' ?p" using cases ne by (auto simp: holds_key_def)
      ultimately show ?thesis using True by simp
    next
      case False
      then show ?thesis
        using cases that l by (auto simp: holds_key_overwrite holds_key_fill)
    qed
    have val: "snd (table ht' ! j) = snd (table ht ! j)" if "j < ?n" "holds_key ht k' j" for j
    proof -
      have "j \<noteq> ?p" using that(2) cases ne by (auto simp: holds_key_def)
      then show ?thesis using cases by (auto simp: overwrite_slot_def fill_slot_def)
    qed
    let ?ps = "probes (home hf k' ?n) ?n"
    have f: "find (holds_key ht' k') ?ps = find (holds_key ht k') ?ps"
      by (rule find_cong) (auto simp: set_probes same)
    have "(case find (holds_key ht k') ?ps of None \<Rightarrow> Inl Invalid_argument
            | Some j \<Rightarrow> Inr (snd (table ht' ! j))) =
          (case find (holds_key ht k') ?ps of None \<Rightarrow> Inl Invalid_argument
            | Some j \<Rightarrow> Inr (snd (table ht ! j)))"
    proof (cases "find (holds_key ht k') ?ps")
      case None
      then show ?thesis by simp
    next
      case (Some j)
      then have "j < ?n" "holds_key ht k' j"
        using set_probes [of "home hf k' ?n" ?n] by (auto simp: find_Some_iff)
      then show ?thesis using Some val by simp
    qed
    then show ?thesis
      using get_find [OF wf', of hf k'] get_find [OF assms(1,2), of hf k'] assms(2)
      by (simp add: sz f)
  qed
qed

lemma hash_const1: "1 < t \<Longrightarrow> t \<le> INT_MAX \<Longrightarrow> hash (\<lambda>_. 1) key t = Inr 1"
  by (simp add: hash_in_range)

lemma insert_loop_pos:
  "0 < n \<Longrightarrow> insert_loop n index ht key v =
     (if \<not> slot_ok ht index then Inl Undefined_behaviour
      else if occupied ht ! nat index then
        (if fst (table ht ! nat index) = key
         then Inr (ht\<lparr> table := (table ht)[nat index := (fst (table ht ! nat index), v)] \<rparr>)
         else insert_loop (n - 1) ((index + 1) smod size_ht ht) ht key v)
      else if INT_MAX \<le> elements_count ht then Inl Undefined_behaviour
      else
        Inr (ht\<lparr> table := (table ht)[nat index := (key, v)],
                  occupied := (occupied ht)[nat index := True],
                  elements_count := elements_count ht + 1,
                  first_index := (if first_index ht = - 1 then index else first_index ht),
                  last_index := index \<rparr>))"
  by (cases n) simp_all

lemma get_loop_pos:
  "0 < n \<Longrightarrow> get_loop n index ht key =
     (if \<not> slot_ok ht index then Inl Undefined_behaviour
      else if occupied ht ! nat index \<and> fst (table ht ! nat index) = key then
        Inr (snd (table ht ! nat index))
      else get_loop (n - 1) ((index + 1) smod size_ht ht) ht key)"
  by (cases n) simp_all

lemma linear_probe_free:
  "0 \<le> index \<Longrightarrow> nat index < length occ \<Longrightarrow> \<not> occ ! nat index \<Longrightarrow>
   linear_probe index ts occ = Some (Inr index)"
  unfolding linear_probe_def by (subst linear_probe_loop.simps) simp

lemma linear_probe_loop_free:
  "0 \<le> index \<Longrightarrow> nat index < length occ \<Longrightarrow> \<not> occ ! nat index \<Longrightarrow>
   linear_probe_loop orig index ts occ = Some (Inr index)"
  by (subst linear_probe_loop.simps) simp

lemma linear_probe_next:
  "0 \<le> index \<Longrightarrow> nat index < length occ \<Longrightarrow> occ ! nat index \<Longrightarrow> 0 < ts \<Longrightarrow>
   (index + 1) mod ts \<noteq> index \<Longrightarrow>
   linear_probe index ts occ = linear_probe_loop index ((index + 1) mod ts) ts occ"
  unfolding linear_probe_def
  by (subst linear_probe_loop.simps) (simp add: smod_mod_positive)

lemma insert_loop_size:
  "insert_loop n index ht key v = Inr ht' \<Longrightarrow> size_ht ht' = size_ht ht"
  by (induction n arbitrary: index) (auto split: if_splits)

lemma resize_size:
  "resize hf ht = Some (Inr ht') \<Longrightarrow> size_ht ht' = size_ht ht + 2000"
  by (auto simp: resize_def Let_def split: if_splits option.splits sum.splits prod.splits)

lemma insert_ht_size:
  assumes "insert_ht hf ht key v = Some (Inr ht')"
  shows "size_ht ht' = (if elements_count ht = size_ht ht then size_ht ht + 2000 else size_ht ht)"
proof (cases "elements_count ht = size_ht ht")
  case True
  then obtain ht1 where r: "resize hf ht = Some (Inr ht1)"
    and l: "(case hash hf key (size_ht ht1) of Inl e \<Rightarrow> Some (Inl e)
             | Inr index \<Rightarrow> Some (insert_loop (nat (size_ht ht1)) index ht1 key v)) = Some (Inr ht')"
    using assms by (auto simp: insert_ht_def split: option.splits sum.splits)
  from l obtain index where "insert_loop (nat (size_ht ht1)) index ht1 key v = Inr ht'"
    by (auto split: sum.splits)
  then have "size_ht ht' = size_ht ht1" by (rule insert_loop_size)
  then show ?thesis using True resize_size [OF r] by simp
next
  case False
  then obtain index where "insert_loop (nat (size_ht ht)) index ht key v = Inr ht'"
    using assms by (auto simp: insert_ht_def split: sum.splits)
  then have "size_ht ht' = size_ht ht" by (rule insert_loop_size)
  then show ?thesis using False by simp
qed

lemma entries_iff:
  "(k, v) \<in> entries ht \<longleftrightarrow>
   (\<exists>j<length (occupied ht). holds_key ht k j \<and> snd (table ht ! j) = v)"
  by (auto simp: entries_def slot_entries_def holds_key_def prod_eq_iff)

lemma get_stats_count: "get_stats ht = (int (occupied_count (occupied ht)), size_ht ht)"
  by (simp add: get_stats_def occupied_count_def)

lemma get_single_value:
  assumes "well_formed ht" "0 < size_ht ht"
    and "\<exists>j<nat (size_ht ht). holds_key ht key j"
    and "\<forall>j<nat (size_ht ht). holds_key ht key j \<longrightarrow> snd (table ht ! j) = v"
  shows "get hf ht key = Inr v"
proof -
  let ?n = "nat (size_ht ht)"
  let ?f = "find (holds_key ht key) (probes (home hf key ?n) ?n)"
  have "?f \<noteq> None" using assms(3) by (auto simp: find_probes_None)
  then obtain p where p: "?f = Some p" by auto
  then have "p < ?n" "holds_key ht key p"
    using set_probes [of "home hf key ?n" ?n] by (auto simp: find_Some_iff)
  then have "snd (table ht ! p) = v" using assms(4) by simp
  then show ?thesis using get_find [OF assms(1,2), of hf key] p by simp
qed

lemma no_holes_overwrite:
  assumes "no_holes hf ht" "well_formed ht"
  shows "no_holes hf (overwrite_slot ht p v)"
proof -
  have k: "fst (table (overwrite_slot ht p v) ! j) = fst (table ht ! j)"
    if "j < nat (size_ht ht)" for j
    using that assms(2)
    by (cases "j = p") (simp_all add: overwrite_slot_def well_formed_def)
  have o: "occupied (overwrite_slot ht p v) = occupied ht"
    "size_ht (overwrite_slot ht p v) = size_ht ht"
    by (simp_all add: overwrite_slot_def)
  show ?thesis
    using assms(1) unfolding no_holes_def o by (simp add: k)
qed

lemma no_holes_fill:
  assumes "no_holes hf ht" "well_formed ht" "0 < size_ht ht"
    and "i < nat (size_ht ht)" "p = probe_index hf key (nat (size_ht ht)) i"
    and "\<forall>i'<i. occupied ht ! probe_index hf key (nat (size_ht ht)) i'"
  shows "no_holes hf (fill_slot ht p key v)"
  unfolding no_holes_def
proof (intro allI impI)
  let ?n = "nat (size_ht ht)"
  let ?ht' = "fill_slot ht p key v"
  fix j
  assume j: "j < nat (size_ht ?ht')" and oj: "occupied ?ht' ! j"
  have s: "size_ht ?ht' = size_ht ht" by (simp add: fill_slot_def)
  have l: "length (table ht) = ?n" "length (occupied ht) = ?n"
    using assms(2) by (simp_all add: well_formed_def)
  have n: "0 < ?n" using assms(3) by simp
  have pn: "p < ?n" unfolding assms(5) using n by (rule probe_index_less)
  have mono: "occupied ?ht' ! q" if "occupied ht ! q" "q < ?n" for q
    using that l by (cases "q = p") (simp_all add: fill_slot_def)
  show "\<exists>i<nat (size_ht ?ht').
           probe_index hf (fst (table ?ht' ! j)) (nat (size_ht ?ht')) i = j \<and>
           (\<forall>i'<i. occupied ?ht' ! probe_index hf (fst (table ?ht' ! j)) (nat (size_ht ?ht')) i')"
  proof (cases "j = p")
    case True
    have k: "fst (table ?ht' ! j) = key" using True pn l by (simp add: fill_slot_def)
    have "\<forall>i'<i. occupied ?ht' ! probe_index hf key ?n i'"
      using assms(6) mono n by (simp add: probe_index_less)
    then show ?thesis
      unfolding s k using assms(4,5) True by blast
  next
    case False
    then have k: "fst (table ?ht' ! j) = fst (table ht ! j)" and o: "occupied ht ! j"
      using oj by (simp_all add: fill_slot_def)
    obtain i0 where i0: "i0 < ?n" "probe_index hf (fst (table ht ! j)) ?n i0 = j"
      "\<forall>i'<i0. occupied ht ! probe_index hf (fst (table ht ! j)) ?n i'"
      using assms(1) j o unfolding no_holes_def s by blast
    have "\<forall>i'<i0. occupied ?ht' ! probe_index hf (fst (table ht ! j)) ?n i'"
      using i0(3) mono n by (simp add: probe_index_less)
    then show ?thesis
      unfolding s k using i0(1,2) by blast
  qed
qed

lemma insert_new_key:
  assumes "well_formed ht" "0 < size_ht ht" "elements_count ht \<noteq> size_ht ht"
    and "occupied_count (occupied ht) < nat (size_ht ht)"
    and "\<forall>j<nat (size_ht ht). \<not> holds_key ht key j"
    and "elements_count ht < INT_MAX"
  shows "\<exists>p<nat (size_ht ht). \<not> occupied ht ! p \<and>
           insert_ht hf ht key v = Some (Inr (fill_slot ht p key v)) \<and>
           (no_holes hf ht \<longrightarrow> no_holes hf (fill_slot ht p key v))"
proof -
  let ?n = "nat (size_ht ht)"
  obtain ht' where r: "insert_ht hf ht key v = Some (Inr ht')"
    using insert_succeeds [OF assms(1-4,6)] by blast
  obtain i where i: "i < ?n"
    and before: "\<forall>i'<i. occupied ht ! probe_index hf key ?n i' \<and>
                fst (table ht ! probe_index hf key ?n i') \<noteq> key"
    and cases: "(holds_key ht key (probe_index hf key ?n i) \<and>
            ht' = overwrite_slot ht (probe_index hf key ?n i) v) \<or>
         (\<not> occupied ht ! probe_index hf key ?n i \<and>
            ht' = fill_slot ht (probe_index hf key ?n i) key v)"
    using insert_cases [OF assms(1-3) r] by blast
  let ?p = "probe_index hf key ?n i"
  have pn: "?p < ?n" using assms(2) by (simp add: probe_index_less)
  then have "\<not> holds_key ht key ?p" using assms(5) by simp
  then have f: "\<not> occupied ht ! ?p" "ht' = fill_slot ht ?p key v"
    using cases by auto
  have nh: "no_holes hf (fill_slot ht ?p key v)" if "no_holes hf ht"
    by (rule no_holes_fill [OF that assms(1,2) i refl]) (use before in simp)
  show ?thesis
    using pn f r nh by blast
qed

lemma insert_existing_key:
  assumes "well_formed ht" "0 < size_ht ht" "elements_count ht \<noteq> size_ht ht"
    and "no_holes hf ht" "j < nat (size_ht ht)" "holds_key ht key j"
    and "occupied_count (occupied ht) < nat (size_ht ht)" "elements_count ht < INT_MAX"
  shows "\<exists>p<nat (size_ht ht). holds_key ht key p \<and>
           insert_ht hf ht key v = Some (Inr (overwrite_slot ht p v)) \<and>
           no_holes hf (overwrite_slot ht p v)"
proof -
  let ?n = "nat (size_ht ht)"
  obtain ht' where r: "insert_ht hf ht key v = Some (Inr ht')"
    using insert_succeeds [OF assms(1-3,7,8)] by blast
  obtain i where i: "i < ?n"
    and before: "\<forall>i'<i. occupied ht ! probe_index hf key ?n i' \<and>
                fst (table ht ! probe_index hf key ?n i') \<noteq> key"
    and cases: "(holds_key ht key (probe_index hf key ?n i) \<and>
            ht' = overwrite_slot ht (probe_index hf key ?n i) v) \<or>
         (\<not> occupied ht ! probe_index hf key ?n i \<and>
            ht' = fill_slot ht (probe_index hf key ?n i) key v)"
    using insert_cases [OF assms(1-3) r] by blast
  let ?p = "probe_index hf key ?n i"
  have pn: "?p < ?n" using assms(2) by (simp add: probe_index_less)
  have kj: "occupied ht ! j" "fst (table ht ! j) = key"
    using assms(6) by (simp_all add: holds_key_def)
  obtain ij where ij: "ij < ?n" "probe_index hf key ?n ij = j"
      "\<forall>i'<ij. occupied ht ! probe_index hf key ?n i'"
    using assms(4,5) kj unfolding no_holes_def by blast
  have "occupied ht ! ?p"
  proof (rule ccontr)
    assume free: "\<not> occupied ht ! ?p"
    have "\<not> i < ij" using ij(3) free by blast
    moreover have "\<not> ij < i" using before ij(2) kj(2) by blast
    moreover have "ij \<noteq> i" using ij(2) kj(1) free by blast
    ultimately show False by arith
  qed
  then have o: "holds_key ht key ?p" "ht' = overwrite_slot ht ?p v"
    using cases by auto
  show ?thesis
    using pn o r no_holes_overwrite [OF assms(4,1)] by blast
qed

lemma get_absent:
  assumes "well_formed ht" "0 < size_ht ht" "\<forall>j<nat (size_ht ht). \<not> holds_key ht key j"
  shows "get hf ht key = Inl Invalid_argument"
proof -
  have "find (holds_key ht key)
          (probes (home hf key (nat (size_ht ht))) (nat (size_ht ht))) = None"
    using assms(3) by (simp add: find_probes_None)
  then show ?thesis using get_find [OF assms(1,2), of hf key] by simp
qed

lemma HashTable_fresh:
  assumes "HashTable n = Inr ht0" "n \<le> INT_MAX"
  shows "well_formed ht0" "size_ht ht0 = n" "elements_count ht0 = 0"
    "occupied_count (occupied ht0) = 0" "\<forall>j<nat n. \<not> holds_key ht0 key j"
    "no_holes hf ht0" "0 \<le> n" "first_index ht0 = - 1" "last_index ht0 = - 1"
    "occupied ht0 = replicate (nat n) False" "table ht0 = replicate (nat n) ('''', 0)"
proof -
  have n: "0 \<le> n" and h: "ht0 = \<lparr> table = replicate (nat n) ('''', 0),
      occupied = replicate (nat n) False, first_index = - 1, last_index = - 1,
      size_ht = n, elements_count = 0 \<rparr>"
    using assms(1) by (auto simp: HashTable_def split: if_splits)
  show "well_formed ht0" using n assms(2) by (simp add: h well_formed_def)
  show "size_ht ht0 = n" "elements_count ht0 = 0" "first_index ht0 = - 1"
    "last_index ht0 = - 1" "0 \<le> n" "occupied ht0 = replicate (nat n) False"
    "table ht0 = replicate (nat n) ('''', 0)"
    using n by (simp_all add: h)
  show "occupied_count (occupied ht0) = 0" by (simp add: h occupied_count_def)
  show "\<forall>j<nat n. \<not> holds_key ht0 key j" by (simp add: h holds_key_def)
  show "no_holes hf ht0" by (simp add: h no_holes_def)
qed

lemma three_inserts:
  assumes "3 \<le> n" "n \<le> INT_MAX" "HashTable n = Inr ht0" "k1 \<noteq> k2"
  shows "\<exists>ht1 ht2 ht3.
     insert_ht hf ht0 k1 v1 = Some (Inr ht1) \<and>
     insert_ht hf ht1 k2 v2 = Some (Inr ht2) \<and>
     insert_ht hf ht2 k1 v3 = Some (Inr ht3) \<and>
     get hf ht0 k1 = Inl Invalid_argument \<and>
     get hf ht1 k2 = Inl Invalid_argument \<and>
     get hf ht2 k1 = Inr v1 \<and>
     get_stats ht3 = (2, n) \<and>
     get hf ht3 k1 = Inr v3 \<and> get hf ht3 k2 = Inr v2 \<and>
     (\<forall>k. k \<noteq> k1 \<and> k \<noteq> k2 \<longrightarrow> get hf ht3 k = Inl Invalid_argument) \<and>
     get_first ht3 = Inr (k1, v3) \<and> get_last ht3 = Inr (k2, v2) \<and>
     last_index ht3 \<noteq> first_index ht3"
proof -
  let ?n = "nat n"
  note f0 = HashTable_fresh [OF assms(3,2)]
  have n3: "3 \<le> ?n" using assms(1) by simp
  have pos0: "0 < size_ht ht0" using assms(1) f0(2) by simp
  have c0: "elements_count ht0 \<noteq> size_ht ht0" using assms(1) f0(2,3) by simp
  have m0: "elements_count ht0 < INT_MAX" by (simp add: f0(3) INT_MAX_def)
  have oc0: "occupied_count (occupied ht0) < nat (size_ht ht0)" using n3 f0(2,4) by simp
  have nk0: "\<forall>j<nat (size_ht ht0). \<not> holds_key ht0 key j" for key
    using f0(5) [of key] f0(2) by simp
  \<comment> \<open>first insert\<close>
  obtain p1 where p1: "p1 < ?n" "\<not> occupied ht0 ! p1"
    and i1: "insert_ht hf ht0 k1 v1 = Some (Inr (fill_slot ht0 p1 k1 v1))"
    and nh1: "no_holes hf (fill_slot ht0 p1 k1 v1)"
    using insert_new_key [OF f0(1) pos0 c0 oc0 nk0 m0, of hf k1 v1] f0(6) [of hf] f0(2) by auto
  define ht1 where "ht1 = fill_slot ht0 p1 k1 v1"
  have l0: "length (table ht0) = ?n" "length (occupied ht0) = ?n"
    using f0(1,2) by (simp_all add: well_formed_def)
  have w1: "well_formed ht1" unfolding ht1_def by (rule well_formed_fill [OF f0(1)])
  have s1: "size_ht ht1 = n" by (simp add: ht1_def fill_slot_def f0(2))
  have e1: "elements_count ht1 = 1" by (simp add: ht1_def fill_slot_def f0(3))
  have o1: "occupied_count (occupied ht1) = 1"
    using occupied_count_set [of p1 "occupied ht0"] p1 l0 f0(4)
    by (simp add: ht1_def fill_slot_def)
  have fi1: "first_index ht1 = int p1" "last_index ht1 = int p1"
    by (simp_all add: ht1_def fill_slot_def f0(8))
  have hk1: "holds_key ht1 k j = (j = p1 \<and> k = k1)" if "j < ?n" for k j
    using that l0 f0(5) [of k] by (auto simp: ht1_def holds_key_fill)
  have t1: "table ht1 ! p1 = (k1, v1)"
    using p1 l0 by (simp add: ht1_def fill_slot_def)
  have l1: "length (table ht1) = ?n" "length (occupied ht1) = ?n"
    using w1 s1 by (simp_all add: well_formed_def)
  have pos1: "0 < size_ht ht1" using assms(1) s1 by simp
  have c1: "elements_count ht1 \<noteq> size_ht ht1" using assms(1) s1 e1 by simp
  have m1: "elements_count ht1 < INT_MAX" by (simp add: e1 INT_MAX_def)
  have oc1: "occupied_count (occupied ht1) < nat (size_ht ht1)" using n3 s1 o1 by simp
  have nk1: "\<forall>j<nat (size_ht ht1). \<not> holds_key ht1 k2 j"
    using hk1 assms(4) s1 by simp
  have nh1': "no_holes hf ht1" using nh1 by (simp add: ht1_def)
  \<comment> \<open>second insert\<close>
  obtain p2 where p2: "p2 < ?n" "\<not> occupied ht1 ! p2"
    and i2: "insert_ht hf ht1 k2 v2 = Some (Inr (fill_slot ht1 p2 k2 v2))"
    and nh2: "no_holes hf (fill_slot ht1 p2 k2 v2)"
    using insert_new_key [OF w1 pos1 c1 oc1 nk1 m1, of hf v2] nh1' s1 by auto
  define ht2 where "ht2 = fill_slot ht1 p2 k2 v2"
  have ne: "p2 \<noteq> p1"
    using p2(2) p1(1) l0 by (auto simp: ht1_def fill_slot_def)
  have w2: "well_formed ht2" unfolding ht2_def by (rule well_formed_fill [OF w1])
  have s2: "size_ht ht2 = n" by (simp add: ht2_def fill_slot_def s1)
  have e2: "elements_count ht2 = 2" by (simp add: ht2_def fill_slot_def e1)
  have o2: "occupied_count (occupied ht2) = 2"
    using occupied_count_set [of p2 "occupied ht1"] p2 l1 o1
    by (simp add: ht2_def fill_slot_def)
  have fi2: "first_index ht2 = int p1" "last_index ht2 = int p2"
    by (simp_all add: ht2_def fill_slot_def fi1)
  have hk2: "holds_key ht2 k j = ((j = p2 \<and> k = k2) \<or> (j = p1 \<and> k = k1))" if "j < ?n" for k j
    using that l1 hk1 [of j k] ne by (auto simp: ht2_def holds_key_fill)
  have t2: "table ht2 ! p1 = (k1, v1)" "table ht2 ! p2 = (k2, v2)"
    using p2 l1 t1 ne by (simp_all add: ht2_def fill_slot_def)
  have l2: "length (table ht2) = ?n" "length (occupied ht2) = ?n"
    using w2 s2 by (simp_all add: well_formed_def)
  have pos2: "0 < size_ht ht2" using assms(1) s2 by simp
  have c2: "elements_count ht2 \<noteq> size_ht ht2" using assms(1) s2 e2 by simp
  have m2: "elements_count ht2 < INT_MAX" by (simp add: e2 INT_MAX_def)
  have oc2: "occupied_count (occupied ht2) < nat (size_ht ht2)" using n3 s2 o2 by simp
  have nh2': "no_holes hf ht2" using nh2 by (simp add: ht2_def)
  have h21: "holds_key ht2 k1 p1" using hk2 [OF p1(1), of k1] by simp
  have p1': "p1 < nat (size_ht ht2)" using p1(1) s2 by simp
  \<comment> \<open>third insert\<close>
  obtain p3 where p3: "p3 < ?n" "holds_key ht2 k1 p3"
    and i3: "insert_ht hf ht2 k1 v3 = Some (Inr (overwrite_slot ht2 p3 v3))"
    using insert_existing_key [OF w2 pos2 c2 nh2' p1' h21 oc2 m2, of v3] s2 by auto
  have p31: "p3 = p1" using p3 hk2 [OF p3(1), of k1] assms(4) by auto
  define ht3 where "ht3 = overwrite_slot ht2 p1 v3"
  have i3': "insert_ht hf ht2 k1 v3 = Some (Inr ht3)" using i3 by (simp add: ht3_def p31)
  have i2': "insert_ht hf ht1 k2 v2 = Some (Inr ht2)" using i2 by (simp add: ht2_def)
  have i1': "insert_ht hf ht0 k1 v1 = Some (Inr ht1)" using i1 by (simp add: ht1_def)
  have w3: "well_formed ht3" unfolding ht3_def by (rule well_formed_overwrite [OF w2])
  have s3: "size_ht ht3 = n" by (simp add: ht3_def overwrite_slot_def s2)
  have o3: "occupied ht3 = occupied ht2" by (simp add: ht3_def overwrite_slot_def)
  have fi3: "first_index ht3 = int p1" "last_index ht3 = int p2"
    by (simp_all add: ht3_def overwrite_slot_def fi2)
  have t3: "table ht3 ! p1 = (k1, v3)" "table ht3 ! p2 = (k2, v2)"
    using p1(1) l2 t2 ne by (simp_all add: ht3_def overwrite_slot_def)
  have l3: "length (table ht3) = ?n" "length (occupied ht3) = ?n"
    using w3 s3 by (simp_all add: well_formed_def)
  \<comment> \<open>the lookups\<close>
  have g0: "get hf ht0 k = Inl Invalid_argument" for k
    by (rule get_absent [OF f0(1) pos0 nk0])
  have g1o: "k \<noteq> k1 \<Longrightarrow> get hf ht1 k = get hf ht0 k" for k
    by (rule insert_result_facts(4) [OF f0(1) pos0 c0 i1'])
  have g1s: "get hf ht1 k1 = Inr v1"
    by (rule insert_result_facts(3) [OF f0(1) pos0 c0 i1'])
  have g2o: "k \<noteq> k2 \<Longrightarrow> get hf ht2 k = get hf ht1 k" for k
    by (rule insert_result_facts(4) [OF w1 pos1 c1 i2'])
  have g2s: "get hf ht2 k2 = Inr v2"
    by (rule insert_result_facts(3) [OF w1 pos1 c1 i2'])
  have g3o: "k \<noteq> k1 \<Longrightarrow> get hf ht3 k = get hf ht2 k" for k
    by (rule insert_result_facts(4) [OF w2 pos2 c2 i3'])
  have g3s: "get hf ht3 k1 = Inr v3"
    by (rule insert_result_facts(3) [OF w2 pos2 c2 i3'])
  have a: "get hf ht1 k2 = Inl Invalid_argument" using g1o [of k2] g0 assms(4) by simp
  have b: "get hf ht2 k1 = Inr v1" using g2o [of k1] g1s assms(4) by simp
  have c: "get hf ht3 k2 = Inr v2" using g3o [of k2] g2s assms(4) by simp
  have d: "\<forall>k. k \<noteq> k1 \<and> k \<noteq> k2 \<longrightarrow> get hf ht3 k = Inl Invalid_argument"
    using g3o g2o g1o g0 by simp
  have st: "get_stats ht3 = (2, n)"
    by (simp add: get_stats_count o3 o2 s3)
  have gf: "get_first ht3 = Inr (k1, v3)"
    using p1(1) l3 by (simp add: get_first_def fi3 slot_ok_def t3)
  have gl: "get_last ht3 = Inr (k2, v2)"
    using p2(1) l3 by (simp add: get_last_def fi3 slot_ok_def t3)
  have lf: "last_index ht3 \<noteq> first_index ht3" using ne by (simp add: fi3)
  show ?thesis
    using i1' i2' i3' g0 [of k1] a b st g3s c d gf gl lf by blast
qed

lemma words_of_text:
  "stream_words ''Hello, World! hello'' = [''Hello,'', ''World!'', ''hello'']"
  by (simp add: stream_words.simps is_space_def)

lemma clean_1: "clean_text ''Hello,'' = ''Hello ''"
  by (simp add: is_alnum_def)

lemma clean_2: "clean_text ''World!'' = ''World ''"
  by (simp add: is_alnum_def)

lemma clean_3: "clean_text ''hello'' = ''hello''"
  by (simp add: is_alnum_def)

lemma tokens_1: "stream_words ''Hello '' = [''Hello'']"
  by (simp add: stream_words.simps is_space_def)

lemma tokens_2: "stream_words ''World '' = [''World'']"
  by (simp add: stream_words.simps is_space_def)

lemma tokens_3: "stream_words ''hello'' = [''hello'']"
  by (simp add: stream_words.simps is_space_def)

lemma lower_1: "map to_lower ''Hello'' = ''hello''"
  by code_simp

lemma lower_2: "map to_lower ''World'' = ''world''"
  by code_simp

lemma lower_3: "map to_lower ''hello'' = ''hello''"
  by (simp add: to_lower_def)

lemma count_tokens_new:
  assumes "map to_lower w = k" "k \<noteq> []" "get hf ht k = Inl Invalid_argument"
    and "insert_ht hf ht k 1 = Some (Inr ht')"
  shows "count_tokens hf [w] ht = Some (Inr ht')"
  using assms by (simp add: Let_def)

lemma count_tokens_known:
  assumes "map to_lower w = k" "k \<noteq> []" "get hf ht k = Inr c"
    and "insert_ht hf ht k (c + 1) = Some (Inr ht')"
  shows "count_tokens hf [w] ht = Some (Inr ht')"
  using assms by (simp add: Let_def)

lemma count_words_step:
  assumes "clean_text word = cleaned" "stream_words cleaned = ts"
    and "count_tokens hf ts ht = Some (Inr ht')"
  shows "count_words hf (word # rest) ht = count_words hf rest ht'"
  using assms by simp

lemma insert_ht_full:
  assumes "well_formed ht" "elements_count ht = size_ht ht" "size_ht ht + 2000 \<le> INT_MAX"
  obtains ht1 where "resize hf ht = Some (Inr ht1)" "well_formed ht1"
    "size_ht ht1 = size_ht ht + 2000" "elements_count ht1 = elements_count ht"
    "occupied_count (occupied ht1) = occupied_count (occupied ht)"
    "entries ht1 = entries ht"
    "elements_count ht1 \<noteq> size_ht ht1" "0 < size_ht ht1"
    "occupied_count (occupied ht1) < nat (size_ht ht1)" "elements_count ht1 < INT_MAX"
    "insert_ht hf ht key v = insert_ht hf ht1 key v"
proof -
  obtain ht1 where r: "resize hf ht = Some (Inr ht1)" and w1: "well_formed ht1"
    and s1: "size_ht ht1 = size_ht ht + 2000"
    and e1: "elements_count ht1 = elements_count ht"
    and o1: "occupied_count (occupied ht1) = occupied_count (occupied ht)"
    and en: "entries ht1 = entries ht"
    using resize_result [OF assms(1,3), of hf] by blast
  have l: "length (occupied ht) = nat (size_ht ht)" "0 \<le> size_ht ht"
    using assms(1) by (simp_all add: well_formed_def)
  have c1: "elements_count ht1 \<noteq> size_ht ht1" using e1 s1 assms(2) by simp
  have p1: "0 < size_ht ht1" using s1 l(2) by simp
  have oc: "occupied_count (occupied ht1) < nat (size_ht ht1)"
    using occupied_count_le [of "occupied ht"] l o1 s1 by simp
  have m: "elements_count ht1 < INT_MAX" using e1 assms(2,3) by simp
  have i: "insert_ht hf ht key v = insert_ht hf ht1 key v"
    using assms(2) r c1 by (simp add: insert_ht_def)
  show ?thesis by (rule that [OF r w1 s1 e1 o1 en c1 p1 oc m i])
qed



lemma resize_preserves_lookup:
  assumes "well_formed ht" and "size_ht ht + 2000 \<le> INT_MAX"
  shows "\<exists>ht'. resize hf ht = Some (Inr ht') \<and>
      size_ht ht' = size_ht ht + 2000 \<and>
      elements_count ht' = elements_count ht \<and>
      get_stats ht' = (fst (get_stats ht), size_ht ht + 2000) \<and>
      (\<forall>key v. (\<exists>j<nat (size_ht ht). holds_key ht key j) \<and>
                (\<forall>j<nat (size_ht ht). holds_key ht key j \<longrightarrow> snd (table ht ! j) = v) \<longrightarrow>
                get hf ht key = Inr v \<and> get hf ht' key = Inr v)"
proof -
  obtain ht' where r: "resize hf ht = Some (Inr ht')" and w': "well_formed ht'"
    and sz: "size_ht ht' = size_ht ht + 2000"
    and cnt: "elements_count ht' = elements_count ht"
    and oc: "occupied_count (occupied ht') = occupied_count (occupied ht)"
    and ent: "entries ht' = entries ht"
    using resize_result [OF assms, of hf] by blast
  let ?n = "nat (size_ht ht)" and ?n' = "nat (size_ht ht')"
  have l: "length (occupied ht) = ?n" "length (occupied ht') = ?n'"
    using assms(1) w' by (simp_all add: well_formed_def)
  have pos': "0 < size_ht ht'" using assms(1) sz by (simp add: well_formed_def)
  have st: "get_stats ht' = (fst (get_stats ht), size_ht ht + 2000)"
    by (simp add: get_stats_count oc sz)
  have g: "get hf ht key = Inr v \<and> get hf ht' key = Inr v"
    if h: "\<exists>j<?n. holds_key ht key j"
      and u: "\<forall>j<?n. holds_key ht key j \<longrightarrow> snd (table ht ! j) = v" for key v
  proof
    have pos: "0 < size_ht ht" using h by auto
    show "get hf ht key = Inr v"
      by (rule get_single_value [OF assms(1) pos h u])
    obtain j where j: "j < ?n" "holds_key ht key j" using h by blast
    then have "(key, v) \<in> entries ht"
      using u l(1) by (auto simp: entries_iff)
    then have "(key, v) \<in> entries ht'" by (simp add: ent)
    then have h': "\<exists>j<?n'. holds_key ht' key j"
      using l(2) by (auto simp: entries_iff)
    have u': "\<forall>j<?n'. holds_key ht' key j \<longrightarrow> snd (table ht' ! j) = v"
    proof (intro allI impI)
      fix j'
      assume j': "j' < ?n'" "holds_key ht' key j'"
      then have "(key, snd (table ht' ! j')) \<in> entries ht'"
        using l(2) by (auto simp: entries_iff)
      then have "(key, snd (table ht' ! j')) \<in> entries ht" by (simp add: ent)
      then obtain j0 where "j0 < ?n" "holds_key ht key j0"
          "snd (table ht ! j0) = snd (table ht' ! j')"
        using l(1) by (auto simp: entries_iff)
      then show "snd (table ht' ! j') = v" using u by auto
    qed
    show "get hf ht' key = Inr v"
      by (rule get_single_value [OF w' pos' h' u'])
  qed
  show ?thesis
    using r sz cnt st g by blast
qed

lemma get_remove_unique_key:
  assumes "well_formed ht" and "j < nat (size_ht ht)" and "holds_key ht key j"
    and "\<forall>j'<nat (size_ht ht). holds_key ht key j' \<longrightarrow> j' = j"
    and "INT_MIN < elements_count ht"
  shows "get hf ht key = Inr (snd (table ht ! j))"
    and "remove_ht hf ht key = Inr (clear_slot ht j)"
proof -
  let ?n = "nat (size_ht ht)"
  let ?f = "find (holds_key ht key) (probes (home hf key ?n) ?n)"
  have pos: "0 < size_ht ht" using assms(2) by simp
  have "?f \<noteq> None"
    using assms(2,3) by (auto simp: find_probes_None)
  then obtain p where p: "?f = Some p" by auto
  then have "p < ?n" "holds_key ht key p"
    using set_probes [of "home hf key ?n" ?n] by (auto simp: find_Some_iff)
  then have pj: "p = j" using assms(4) by simp
  show "get hf ht key = Inr (snd (table ht ! j))"
    by (simp add: get_find [OF assms(1) pos] p pj)
  show "remove_ht hf ht key = Inr (clear_slot ht j)"
    using assms(5) by (simp add: remove_find [OF assms(1) pos] p pj)
qed

lemma md5_blocks_short: "length file < 4096 \<Longrightarrow> md5_blocks u ctx file = ctx"
  by (subst md5_blocks.simps) simp

lemma md5_blocks_whole:
  "md5_blocks u ctx bs = md5_blocks u ctx (take (4096 * (length bs div 4096)) bs)"
proof (induction u ctx bs rule: md5_blocks.induct)
  case (1 u ctx bs)
  show ?case
  proof (cases "4096 \<le> length bs")
    case True
    let ?w = "take (4096 * (length bs div 4096)) bs"
    have d: "1 \<le> length bs div 4096" using True by (simp add: Suc_le_eq div_greater_zero_iff)
    then have lw: "4096 \<le> length ?w" by simp
    have t: "take 4096 ?w = take 4096 bs" using d by (simp add: min_def)
    have q: "(length bs - 4096) div 4096 = length bs div 4096 - 1"
      using True le_div_geq [of 4096 "length bs"] by simp
    have dr: "drop 4096 ?w = take (4096 * (length (drop 4096 bs) div 4096)) (drop 4096 bs)"
      by (simp add: drop_take q right_diff_distrib')
    have "md5_blocks u ctx bs = md5_blocks u (u ctx (take 4096 bs)) (drop 4096 bs)"
      using True by (subst md5_blocks.simps) simp
    also have "\<dots> = md5_blocks u (u ctx (take 4096 bs))
          (take (4096 * (length (drop 4096 bs) div 4096)) (drop 4096 bs))"
      by (rule "1.IH" [OF True])
    also have "\<dots> = md5_blocks u (u ctx (take 4096 ?w)) (drop 4096 ?w)"
      by (simp only: t dr)
    also have "\<dots> = md5_blocks u ctx ?w"
      using lw by (subst (2) md5_blocks.simps) simp
    finally show ?thesis .
  next
    case False
    then have "length bs div 4096 = 0" by simp
    then show ?thesis using False by (simp add: md5_blocks_short)
  qed
qed

lemma hex_empty_digest:
  "concat (map (\<lambda>b. hex_int (unat b)) (take 16 md5_of_empty_input)) = ''d41d8cd98f0b24e980998ecf8427e''"
  by code_simp

lemma load_header_short:
  "length content < 16 \<Longrightarrow> snd (load_header content ht) = None"
  by (auto simp: load_header_def read_field_def Let_def split: prod.splits)

lemma load_header_full:
  "16 \<le> length content \<Longrightarrow>
   load_header content ht =
     (ht\<lparr> size_ht := bytes_int (take 4 content),
          elements_count := bytes_int (take 4 (drop 4 content)),
          first_index := bytes_int (take 4 (drop 8 content)),
          last_index := bytes_int (take 4 (drop 12 content)) \<rparr>, Some (drop 16 content))"
  by (simp add: load_header_def read_field_def Let_def) arith

lemma load_from_file_cases:
  "load_from_file None ht = Inr (False, ht)"
  "length content < 16 \<Longrightarrow> \<exists>ht'. load_from_file (Some content) ht = Inr (False, ht')"
  "16 \<le> length content \<Longrightarrow> 0 \<le> bytes_int (take 4 content) \<Longrightarrow>
     \<exists>ht'. load_from_file (Some content) ht = Inr (True, ht')"
  "16 \<le> length content \<Longrightarrow> bytes_int (take 4 content) < 0 \<Longrightarrow>
     load_from_file (Some content) ht = Inl Length_error"
proof -
  show "load_from_file None ht = Inr (False, ht)" by (simp add: load_from_file_def)
  show "\<exists>ht'. load_from_file (Some content) ht = Inr (False, ht')" if "length content < 16"
    using load_header_short [OF that, of ht]
    by (cases "load_header content ht") (simp add: load_from_file_def)
  show "\<exists>ht'. load_from_file (Some content) ht = Inr (True, ht')"
    if "16 \<le> length content" "0 \<le> bytes_int (take 4 content)"
    using that(2) by (simp add: load_from_file_def load_header_full [OF that(1)] load_slots_def
        split: prod.splits)
  show "load_from_file (Some content) ht = Inl Length_error"
    if "16 \<le> length content" "bytes_int (take 4 content) < 0"
    using that(2) by (simp add: load_from_file_def load_header_full [OF that(1)] load_slots_def)
qed

lemma length_int_bytes [simp]: "length (int_bytes x) = 4"
  by (simp add: int_bytes_def)

lemma low_bytes_sum:
  "(x :: int) mod 256 + 256 * (x div 256 mod 256) + 65536 * (x div 65536 mod 256)
     + 16777216 * (x div 16777216 mod 256) = x mod 4294967296"
proof -
  have a: "x mod 65536 = 256 * (x div 256 mod 256) + x mod 256"
    using zmod_zmult2_eq [of 256 x 256] by simp
  have b: "x mod 16777216 = 65536 * (x div 65536 mod 256) + x mod 65536"
    using zmod_zmult2_eq [of 256 x 65536] by simp
  have c: "x mod 4294967296 = 16777216 * (x div 16777216 mod 256) + x mod 16777216"
    using zmod_zmult2_eq [of 256 x 16777216] by simp
  show ?thesis unfolding c b a by simp
qed

lemma wrap_signed:
  assumes "- 2147483648 \<le> (x :: int)" "x < 2147483648"
  shows "(if 2147483648 \<le> x mod 4294967296 then x mod 4294967296 - 4294967296
          else x mod 4294967296) = x"
proof (cases "0 \<le> x")
  case True
  have "x < 4294967296" using assms(2) by simp
  then have m: "x mod 4294967296 = x" using True by (rule mod_pos_pos_trivial [rotated])
  show ?thesis unfolding m using assms(2) by simp
next
  case False
  have r: "0 \<le> x + 4294967296" "x + 4294967296 < 4294967296"
    using False assms(1) by simp_all
  have m1: "(x + 4294967296) mod 4294967296 = x + 4294967296"
    by (rule mod_pos_pos_trivial [OF r])
  have m2: "(x + 4294967296) mod 4294967296 = x mod 4294967296"
    by (rule mod_add_self2)
  have m: "x mod 4294967296 = x + 4294967296"
    by (rule trans [OF m2 [symmetric] m1])
  show ?thesis unfolding m using assms(1) by simp
qed

lemma bytes_int_int_bytes:
  assumes "- 2147483648 \<le> x" "x < 2147483648"
  shows "bytes_int (int_bytes x @ rest) = x"
proof -
  have n: "(int_bytes x @ rest) ! 0 = char_of x"
    "(int_bytes x @ rest) ! 1 = char_of (x div 256)"
    "(int_bytes x @ rest) ! 2 = char_of (x div 65536)"
    "(int_bytes x @ rest) ! 3 = char_of (x div 16777216)"
    by (simp_all add: int_bytes_def)
  have u: "of_char ((int_bytes x @ rest) ! 0) + 256 * of_char ((int_bytes x @ rest) ! 1)
        + 65536 * of_char ((int_bytes x @ rest) ! 2)
        + 16777216 * of_char ((int_bytes x @ rest) ! 3) = x mod 4294967296"
    unfolding n of_char_of by (rule low_bytes_sum)
  show ?thesis
    unfolding bytes_int_def Let_def u by (rule wrap_signed [OF assms])
qed

lemma take_int_bytes [simp]: "take 4 (int_bytes x @ rest) = int_bytes x"
  by simp

lemma drop_int_bytes [simp]: "drop 4 (int_bytes x @ rest) = rest"
  by simp

lemma bytes_int_exact:
  "- 2147483648 \<le> x \<Longrightarrow> x < 2147483648 \<Longrightarrow> bytes_int (int_bytes x) = x"
  using bytes_int_int_bytes [of x "[]"] by simp

lemma read_field_int_bytes:
  "- 2147483648 \<le> x \<Longrightarrow> x < 2147483648 \<Longrightarrow>
   read_field old (int_bytes x @ rest) = (True, x, rest)"
  by (simp add: read_field_def bytes_int_exact)

lemma read_int_int_bytes:
  "- 2147483648 \<le> x \<Longrightarrow> x < 2147483648 \<Longrightarrow>
   read_int (int_bytes x @ rest) = Some (x, rest)"
  by (simp add: read_int_def bytes_int_exact)

lemma read_chars_append: "length key = n \<Longrightarrow> read_chars n (key @ rest) = Some (key, rest)"
  by (simp add: read_chars_def)

lemma size_to_int_small: "n < 2147483648 \<Longrightarrow> size_to_int n = int n"
proof -
  assume n: "n < 2147483648"
  have "(word_of_nat n :: 32 word) = word_of_int (int n)" by simp
  then have "sint (word_of_nat n :: 32 word) = signed_take_bit (LENGTH(32) - 1) (int n)"
    by (simp only: sint_sbintrunc')
  then have "size_to_int n = signed_take_bit 31 (int n)"
    by (simp add: size_to_int_def)
  also have "\<dots> = int n"
  proof (rule signed_take_bit_int_eq_self)
    show "- (2 ^ 31) \<le> int n" by (rule order_trans [where y = 0]) simp_all
    show "int n < 2 ^ 31" using n by simp
  qed
  finally show ?thesis .
qed

lemma sint_range32: "- 2147483648 \<le> sint (w :: 32 word)" "sint (w :: 32 word) < 2147483648"
  using sint_ge [of w] sint_lt [of w] by simp_all


lemma char_flag: "(if b then char_of (1 :: nat) else (char_of (0 :: nat) :: char)) = char_of (1 :: nat) \<longleftrightarrow> b"
  by (cases b) (simp_all add: char_of_eq_iff)

lemma load_loop_slot:
  assumes "length (fst e) \<le> 2147483647"
  shows "load_loop (Suc n) i (slot_bytes e b @ rest) ht =
    (if 1000 < length (fst e) then (False, ht)
     else load_loop n (Suc i) rest
            (ht\<lparr> occupied := (occupied ht)[i := b], table := (table ht)[i := e] \<rparr>))"
proof -
  obtain k v where e: "e = (k, v)" by (cases e)
  define c :: char where "c = (if b then char_of (1 :: nat) else char_of (0 :: nat))"
  have cb: "(c = char_of (Suc 0)) = b"
    using char_flag [of b] by (simp add: c_def)
  have ks: "size_to_int (length k) = int (length k)"
    using assms by (simp add: e size_to_int_small)
  have r: "- 2147483648 \<le> int (length k)" "int (length k) < 2147483648"
    using assms by (simp_all add: e)
  have f: "slot_bytes (k, v) b @ rest =
      int_bytes (int (length k)) @ (k @ int_bytes (sint v) @ [c] @ rest)"
    by (simp add: slot_bytes_def ks c_def)
  have r1: "read_int (slot_bytes (k, v) b @ rest) =
      Some (int (length k), k @ int_bytes (sint v) @ [c] @ rest)"
    unfolding f by (rule read_int_int_bytes [OF r])
  have r2: "read_chars (length k) (k @ int_bytes (sint v) @ [c] @ rest) =
      Some (k, int_bytes (sint v) @ [c] @ rest)"
    by (simp add: read_chars_append)
  have r3: "read_int (int_bytes (sint v) @ [c] @ rest) = Some (sint v, [c] @ rest)"
    by (rule read_int_int_bytes [OF sint_range32])
  have r4: "read_chars (Suc 0) ([c] @ rest) = Some ([c], rest)"
    by (simp add: read_chars_def)
  show ?thesis
    by (simp add: e r1 r2 r3 r4 cb del: append.simps append_Cons)
qed

lemma load_loop_saved:
  assumes "\<forall>(e, b)\<in>set es. length (fst e) \<le> 2147483647"
  shows "load_loop (length es) i (concat (map (\<lambda>(e, b). slot_bytes e b) es)) ht =
    (list_all (\<lambda>(e, b). length (fst e) \<le> 1000) es,
     put_slots i (takeWhile (\<lambda>(e, b). length (fst e) \<le> 1000) es) ht)"
  using assms
proof (induction es arbitrary: i ht)
  case Nil
  show ?case by simp
next
  case (Cons a es)
  obtain e b where a: "a = (e, b)" by (cases a)
  have l: "length (fst e) \<le> 2147483647" using Cons.prems by (simp add: a)
  have r: "\<forall>(e, b)\<in>set es. length (fst e) \<le> 2147483647" using Cons.prems by simp
  show ?case
    using Cons.IH [OF r] load_loop_slot [OF l]
    by (simp add: a)
qed


lemma put_slots_fields:
  "size_ht (put_slots i es ht) = size_ht ht"
  "elements_count (put_slots i es ht) = elements_count ht"
  "first_index (put_slots i es ht) = first_index ht"
  "last_index (put_slots i es ht) = last_index ht"
  by (induction i es ht rule: put_slots.induct) simp_all

lemma put_slots_table:
  "i + length es \<le> length (table ht) \<Longrightarrow>
   table (put_slots i es ht) = take i (table ht) @ map fst es @ drop (i + length es) (table ht)"
proof (induction i es ht rule: put_slots.induct)
  case (1 i ht)
  show ?case by simp
next
  case (2 i e b es ht)
  have i: "i < length (table ht)" using "2.prems" by simp
  have "table (put_slots i ((e, b) # es) ht) =
      take (Suc i) ((table ht)[i := e]) @ map fst es @
      drop (Suc i + length es) ((table ht)[i := e])"
    using "2.IH" "2.prems" by simp
  also have "take (Suc i) ((table ht)[i := e]) = take i (table ht) @ [e]"
    using i by (simp add: take_Suc_conv_app_nth)
  also have "drop (Suc i + length es) ((table ht)[i := e]) =
      drop (i + length ((e, b) # es)) (table ht)"
    by simp
  finally show ?case by simp
qed

lemma put_slots_occupied:
  "i + length es \<le> length (occupied ht) \<Longrightarrow>
   occupied (put_slots i es ht) =
     take i (occupied ht) @ map snd es @ drop (i + length es) (occupied ht)"
proof (induction i es ht rule: put_slots.induct)
  case (1 i ht)
  show ?case by simp
next
  case (2 i e b es ht)
  have i: "i < length (occupied ht)" using "2.prems" by simp
  have "occupied (put_slots i ((e, b) # es) ht) =
      take (Suc i) ((occupied ht)[i := b]) @ map snd es @
      drop (Suc i + length es) ((occupied ht)[i := b])"
    using "2.IH" "2.prems" by simp
  also have "take (Suc i) ((occupied ht)[i := b]) = take i (occupied ht) @ [b]"
    using i by (simp add: take_Suc_conv_app_nth)
  also have "drop (Suc i + length es) ((occupied ht)[i := b]) =
      drop (i + length ((e, b) # es)) (occupied ht)"
    by simp
  finally show ?case by simp
qed

lemma put_slots_all:
  assumes "length (table ht) = length es" "length (occupied ht) = length es"
  shows "put_slots 0 es ht = ht\<lparr> occupied := map snd es, table := map fst es \<rparr>"
proof (rule hash_table.equality)
  show "table (put_slots 0 es ht) = table (ht\<lparr> occupied := map snd es, table := map fst es \<rparr>)"
    using put_slots_table [of 0 es ht] assms by simp
  show "occupied (put_slots 0 es ht) =
      occupied (ht\<lparr> occupied := map snd es, table := map fst es \<rparr>)"
    using put_slots_occupied [of 0 es ht] assms by simp
qed (simp_all add: put_slots_fields)

lemma load_header_saved:
  assumes "- 2147483648 \<le> a" "a < 2147483648" "- 2147483648 \<le> b" "b < 2147483648"
    and "- 2147483648 \<le> c" "c < 2147483648" "- 2147483648 \<le> d" "d < 2147483648"
  shows "load_header (int_bytes a @ int_bytes b @ int_bytes c @ int_bytes d @ rest) ht =
    (ht\<lparr> size_ht := a, elements_count := b, first_index := c, last_index := d \<rparr>, Some rest)"
  by (simp add: load_header_def Let_def read_field_int_bytes [OF assms(1,2)]
      read_field_int_bytes [OF assms(3,4)] read_field_int_bytes [OF assms(5,6)]
      read_field_int_bytes [OF assms(7,8)] del: append.simps append_Cons)

lemma map_slots_zip:
  "length xs = n \<Longrightarrow> length ys = n \<Longrightarrow>
   map (\<lambda>i. f (xs ! i) (ys ! i)) [0..<n] = map (\<lambda>(e, b). f e b) (zip xs ys)"
  by (rule nth_equalityI) simp_all

lemma vector_resize_length [simp]: "length (vector_resize xs n d) = n"
  by (simp add: vector_resize_def)


lemma save_load_exact:
  assumes "store_inv S" "keys_within 2147483647 S"
  shows "\<exists>bytes. save_to_file True S = Inr bytes \<and>
         load_completes bytes F = (\<forall>j<nat (size_ht S). length (fst (table S ! j)) \<le> 1000) \<and>
         load_from_file (Some bytes) F =
           Inr (True, put_slots 0
                  (takeWhile (\<lambda>(e, b). length (fst e) \<le> 1000) (zip (table S) (occupied S)))
                  (F\<lparr> size_ht := size_ht S, elements_count := elements_count S,
                      first_index := first_index S, last_index := last_index S,
                      table := vector_resize (table F) (nat (size_ht S)) ('''', 0),
                      occupied := vector_resize (occupied F) (nat (size_ht S)) False \<rparr>)) \<and>
         (load_completes bytes F \<longrightarrow> load_from_file (Some bytes) F = Inr (True, S))"
proof -
  define n where "n = nat (size_ht S)"
  define es where "es = zip (table S) (occupied S)"
  define slots where "slots = concat (map (\<lambda>(e, b). slot_bytes e b) es)"
  define bytes where "bytes = int_bytes (size_ht S) @ int_bytes (elements_count S) @
      int_bytes (first_index S) @ int_bytes (last_index S) @ slots"
  let ?short = "\<lambda>(e :: string \<times> 32 word, b :: bool). length (fst e) \<le> 1000"
  have w: "0 \<le> size_ht S" "size_ht S \<le> 2147483647" "length (table S) = n"
      "length (occupied S) = n"
    and c: "elements_count S = int (occupied_count (occupied S))"
    and fl: "- 1 \<le> first_index S" "first_index S < size_ht S"
      "- 1 \<le> last_index S" "last_index S < size_ht S"
    using assms(1) by (simp_all add: store_inv_def well_formed_def INT_MAX_def n_def)
  have sn: "size_ht S = int n" using w(1) by (simp add: n_def)
  have les: "length es = n" by (simp add: es_def w)
  have oc: "occupied_count (occupied S) \<le> n"
    using occupied_count_le [of "occupied S"] w(4) by simp
  have r1: "- 2147483648 \<le> size_ht S" "size_ht S < 2147483648" using w(1,2) by simp_all
  have r2: "- 2147483648 \<le> elements_count S" "elements_count S < 2147483648"
    using c oc w(2) sn by simp_all
  have r3: "- 2147483648 \<le> first_index S" "first_index S < 2147483648"
    using fl(1,2) w(2) by simp_all
  have r4: "- 2147483648 \<le> last_index S" "last_index S < 2147483648"
    using fl(3,4) w(2) by simp_all
  have sv: "save_to_file True S = Inr bytes"
    using map_slots_zip [OF w(3,4), of slot_bytes]
    by (simp add: save_to_file_def w bytes_def slots_def es_def flip: n_def)
  define ht4 where "ht4 = F\<lparr> size_ht := size_ht S, elements_count := elements_count S,
      first_index := first_index S, last_index := last_index S \<rparr>"
  define ht5 where "ht5 = ht4\<lparr> table := vector_resize (table ht4) n ('''', 0),
      occupied := vector_resize (occupied ht4) n False \<rparr>"
  have hd: "load_header bytes F = (ht4, Some slots)"
    unfolding bytes_def ht4_def by (rule load_header_saved [OF r1 r2 r3 r4])
  have kl: "\<forall>(e, b)\<in>set es. length (fst e) \<le> 2147483647"
    using assms(2) by (auto simp: keys_within_def es_def dest: set_zip_leftD)
  have ll: "load_loop n 0 slots ht5 =
      (list_all ?short es, put_slots 0 (takeWhile ?short es) ht5)"
    using load_loop_saved [OF kl, of 0 ht5] by (simp add: slots_def les)
  have ls: "load_slots slots ht4 =
      Inr (list_all ?short es, put_slots 0 (takeWhile ?short es) ht5)"
    using ll w(1) by (simp add: load_slots_def ht4_def ht5_def flip: n_def)
  have la: "list_all ?short es = (\<forall>j<n. length (fst (table S ! j)) \<le> 1000)"
    by (simp add: list_all_length es_def w)
  have lc: "load_completes bytes F = (\<forall>j<n. length (fst (table S ! j)) \<le> 1000)"
    by (simp add: load_completes_def hd ls la)
  have lf: "load_from_file (Some bytes) F =
      Inr (True, put_slots 0 (takeWhile ?short es) ht5)"
    by (simp add: load_from_file_def hd ls)
  have full: "load_from_file (Some bytes) F = Inr (True, S)" if "load_completes bytes F"
  proof -
    have "list_all ?short es" using that lc la by simp
    then have tw: "takeWhile ?short es = es"
      by (simp add: takeWhile_eq_all_conv list_all_iff)
    have ps: "put_slots 0 es ht5 = ht5\<lparr> occupied := map snd es, table := map fst es \<rparr>"
      by (rule put_slots_all) (simp_all add: ht5_def les)
    have eq: "ht5\<lparr> occupied := map snd es, table := map fst es \<rparr> = S"
      by (rule hash_table.equality) (simp_all add: ht5_def ht4_def es_def w)
    show ?thesis by (simp only: lf tw ps eq)
  qed
  have h5: "ht5 = F\<lparr> size_ht := size_ht S, elements_count := elements_count S,
                      first_index := first_index S, last_index := last_index S,
                      table := vector_resize (table F) (nat (size_ht S)) ('''', 0),
                      occupied := vector_resize (occupied F) (nat (size_ht S)) False \<rparr>"
    by (simp add: ht5_def ht4_def n_def)
  have lf': "load_from_file (Some bytes) F =
           Inr (True, put_slots 0
                  (takeWhile (\<lambda>(e, b). length (fst e) \<le> 1000) (zip (table S) (occupied S)))
                  (F\<lparr> size_ht := size_ht S, elements_count := elements_count S,
                      first_index := first_index S, last_index := last_index S,
                      table := vector_resize (table F) (nat (size_ht S)) ('''', 0),
                      occupied := vector_resize (occupied F) (nat (size_ht S)) False \<rparr>))"
    using lf unfolding h5 es_def .
  show ?thesis
    using sv lc lf' full unfolding n_def by blast
qed


lemma keys_within_update:
  assumes "keys_within L ht" "length (fst x) \<le> L"
  shows "\<forall>e\<in>set ((table ht)[p := x]). length (fst e) \<le> L"
  using assms set_update_subset_insert [of "table ht" p x]
  by (auto simp: keys_within_def)

lemma store_inv_fresh:
  assumes "HashTable n = Inr ht" "n \<le> INT_MAX"
  shows "store_inv ht" "keys_within L ht"
proof -
  have n: "0 \<le> n" and h: "ht = \<lparr> table = replicate (nat n) ('''', 0),
      occupied = replicate (nat n) False, first_index = - 1, last_index = - 1,
      size_ht = n, elements_count = 0 \<rparr>"
    using assms(1) by (auto simp: HashTable_def split: if_splits)
  show "store_inv ht"
    using n assms(2) by (simp add: h store_inv_def well_formed_def occupied_count_def)
  show "keys_within L ht" by (simp add: h keys_within_def)
qed

lemma resize_loop_keys:
  "resize_loop hf ht ns js (nt, no, nf, nl) = Some (Inr (nt', no', nf', nl')) \<Longrightarrow>
   set nt' \<subseteq> set nt \<union> set (table ht)"
proof (induction js arbitrary: nt no nf nl)
  case Nil
  then show ?case by simp
next
  case (Cons i js)
  show ?case
  proof (cases "slot_ok ht (int i) \<and> occupied ht ! i")
    case False
    then have "resize_loop hf ht ns js (nt, no, nf, nl) = Some (Inr (nt', no', nf', nl'))"
      using Cons.prems by (auto split: if_splits)
    then show ?thesis by (rule Cons.IH)
  next
    case True
    then obtain p where "resize_loop hf ht ns js
        (nt[nat p := table ht ! i], no[nat p := True],
         (if int i = first_index ht then p else nf), p) = Some (Inr (nt', no', nf', nl'))"
      using Cons.prems by (auto split: sum.splits option.splits)
    then have "set nt' \<subseteq> set (nt[nat p := table ht ! i]) \<union> set (table ht)"
      by (rule Cons.IH)
    moreover have "set (nt[nat p := table ht ! i]) \<subseteq> insert (table ht ! i) (set nt)"
      by (rule set_update_subset_insert)
    moreover have "table ht ! i \<in> set (table ht)"
      using True by (simp add: slot_ok_def)
    ultimately show ?thesis by auto
  qed
qed

lemma resize_keys:
  assumes "resize hf ht = Some (Inr ht')" "keys_within L ht"
  shows "keys_within L ht'"
proof -
  obtain nt' no' nf' nl' where
    r: "resize_loop hf ht (size_ht ht + 2000) [0..<nat (size_ht ht)]
          (replicate (nat (size_ht ht + 2000)) ('''', 0),
           replicate (nat (size_ht ht + 2000)) False, - 1, - 1) =
        Some (Inr (nt', no', nf', nl'))"
    and t: "table ht' = nt'"
    using assms(1)
    by (auto simp: resize_def Let_def split: if_splits option.splits sum.splits)
  have "set nt' \<subseteq> set (replicate (nat (size_ht ht + 2000)) ('''', 0)) \<union> set (table ht)"
    using r by (rule resize_loop_keys)
  then show ?thesis
    using assms(2) by (auto simp: keys_within_def t)
qed

lemma store_inv_resize:
  assumes "store_inv ht" "resize hf ht = Some (Inr ht')"
  shows "store_inv ht'"
proof -
  have w: "well_formed ht" using assms(1) by (simp add: store_inv_def)
  have s: "size_ht ht + 2000 \<le> INT_MAX"
    using assms(2) by (auto simp: resize_def Let_def split: if_splits)
  obtain h where h: "resize hf ht = Some (Inr h)" "well_formed h"
    "elements_count h = elements_count ht"
    "occupied_count (occupied h) = occupied_count (occupied ht)"
    "- 1 \<le> first_index h" "first_index h < size_ht h"
    "- 1 \<le> last_index h" "last_index h < size_ht h"
    using resize_result [OF w s, of hf] by blast
  have "h = ht'" using h(1) assms(2) by simp
  then show ?thesis
    using h assms(1) by (simp add: store_inv_def)
qed

lemma store_inv_overwrite:
  assumes "store_inv ht" "keys_within L ht" "p < nat (size_ht ht)"
  shows "store_inv (overwrite_slot ht p v)" "keys_within L (overwrite_slot ht p v)"
proof -
  show "store_inv (overwrite_slot ht p v)"
    using assms(1) by (simp add: store_inv_def well_formed_def overwrite_slot_def)
  have "p < length (table ht)"
    using assms(1,3) by (simp add: store_inv_def well_formed_def)
  then have "length (fst (fst (table ht ! p), v)) \<le> L"
    using assms(2) by (simp add: keys_within_def)
  then show "keys_within L (overwrite_slot ht p v)"
    using keys_within_update [OF assms(2), of "(fst (table ht ! p), v)" p]
    by (simp add: keys_within_def overwrite_slot_def)
qed

lemma store_inv_fill:
  assumes "store_inv ht" "keys_within L ht" "p < nat (size_ht ht)" "\<not> occupied ht ! p"
    and "length key \<le> L"
  shows "store_inv (fill_slot ht p key v)" "keys_within L (fill_slot ht p key v)"
proof -
  have l: "p < length (occupied ht)"
    using assms(1,3) by (simp add: store_inv_def well_formed_def)
  have c: "occupied_count ((occupied ht)[p := True]) = Suc (occupied_count (occupied ht))"
    by (rule occupied_count_set [OF l assms(4)])
  show "store_inv (fill_slot ht p key v)"
    using assms(1,3) c by (simp add: store_inv_def well_formed_def fill_slot_def)
  show "keys_within L (fill_slot ht p key v)"
    using keys_within_update [OF assms(2), of "(key, v)" p] assms(5)
    by (simp add: keys_within_def fill_slot_def)
qed

lemma store_inv_clear:
  assumes "store_inv ht" "keys_within L ht" "p < nat (size_ht ht)" "occupied ht ! p"
  shows "store_inv (clear_slot ht p)" "keys_within L (clear_slot ht p)"
proof -
  have l: "p < length (occupied ht)"
    using assms(1,3) by (simp add: store_inv_def well_formed_def)
  have c: "Suc (occupied_count ((occupied ht)[p := False])) = occupied_count (occupied ht)"
    by (rule occupied_count_clear [OF l assms(4)])
  have c': "int (occupied_count (occupied ht)) - 1 = int (occupied_count ((occupied ht)[p := False]))"
    using c by simp
  show "store_inv (clear_slot ht p)"
    using assms(1,3) c' by (simp add: store_inv_def well_formed_def clear_slot_def)
  show "keys_within L (clear_slot ht p)"
    using keys_within_update [OF assms(2), of "('''', 0)" p]
    by (simp add: keys_within_def clear_slot_def)
qed

lemma store_inv_positive:
  assumes "store_inv ht" "elements_count ht \<noteq> size_ht ht"
  shows "0 < size_ht ht"
proof (rule ccontr)
  assume "\<not> 0 < size_ht ht"
  then have "size_ht ht = 0" "occupied ht = []"
    using assms(1) by (simp_all add: store_inv_def well_formed_def)
  then show False
    using assms by (simp add: store_inv_def occupied_count_def)
qed

lemma insert_inv_not_full:
  assumes "store_inv ht" "keys_within L ht" "length key \<le> L"
    and "elements_count ht \<noteq> size_ht ht" "insert_ht hf ht key v = Some (Inr ht')"
  shows "store_inv ht'" "keys_within L ht'"
proof -
  let ?n = "nat (size_ht ht)"
  have w: "well_formed ht" using assms(1) by (simp add: store_inv_def)
  have pos: "0 < size_ht ht" by (rule store_inv_positive [OF assms(1,4)])
  obtain i where "i < ?n"
    and cases: "(holds_key ht key (probe_index hf key ?n i) \<and>
            ht' = overwrite_slot ht (probe_index hf key ?n i) v) \<or>
         (\<not> occupied ht ! probe_index hf key ?n i \<and>
            ht' = fill_slot ht (probe_index hf key ?n i) key v)"
    using insert_cases [OF w pos assms(4,5)] by blast
  let ?p = "probe_index hf key ?n i"
  have pn: "?p < ?n" using pos by (simp add: probe_index_less)
  from cases show "store_inv ht'"
  proof
    assume "holds_key ht key ?p \<and> ht' = overwrite_slot ht ?p v"
    then show ?thesis using store_inv_overwrite(1) [OF assms(1,2) pn] by simp
  next
    assume "\<not> occupied ht ! ?p \<and> ht' = fill_slot ht ?p key v"
    then show ?thesis using store_inv_fill(1) [OF assms(1,2) pn _ assms(3)] by simp
  qed
  from cases show "keys_within L ht'"
  proof
    assume "holds_key ht key ?p \<and> ht' = overwrite_slot ht ?p v"
    then show ?thesis using store_inv_overwrite(2) [OF assms(1,2) pn] by simp
  next
    assume "\<not> occupied ht ! ?p \<and> ht' = fill_slot ht ?p key v"
    then show ?thesis using store_inv_fill(2) [OF assms(1,2) pn _ assms(3)] by simp
  qed
qed

lemma insert_inv:
  assumes "store_inv ht" "keys_within L ht" "length key \<le> L"
    and "insert_ht hf ht key v = Some (Inr ht')"
  shows "store_inv ht'" "keys_within L ht'"
proof -
  have "store_inv ht' \<and> keys_within L ht'"
  proof (cases "elements_count ht = size_ht ht")
    case False
    show ?thesis
      using insert_inv_not_full [OF assms(1-3) False assms(4)] by simp
  next
    case True
    obtain ht1 where r: "resize hf ht = Some (Inr ht1)"
      using assms(4) True by (auto simp: insert_ht_def split: option.splits sum.splits)
    have i1: "store_inv ht1" by (rule store_inv_resize [OF assms(1) r])
    have k1: "keys_within L ht1" by (rule resize_keys [OF r assms(2)])
    have s1: "size_ht ht1 = size_ht ht + 2000" by (rule resize_size [OF r])
    have w1: "well_formed ht1" using i1 by (simp add: store_inv_def)
    have s: "size_ht ht + 2000 \<le> INT_MAX"
      using w1 s1 by (simp add: well_formed_def)
    have w: "well_formed ht" using assms(1) by (simp add: store_inv_def)
    obtain h where h: "resize hf ht = Some (Inr h)" "elements_count h \<noteq> size_ht h"
      "insert_ht hf ht key v = insert_ht hf h key v"
      by (rule insert_ht_full [OF w True s, of hf key v])
    have hh: "h = ht1" using h(1) r by simp
    show ?thesis
      using insert_inv_not_full [OF i1 k1 assms(3), of hf v ht'] h(2,3) assms(4)
      by (simp add: hh)
  qed
  then show "store_inv ht'" "keys_within L ht'" by simp_all
qed

lemma remove_inv:
  assumes "store_inv ht" "keys_within L ht" "remove_ht hf ht key = Inr ht'"
  shows "store_inv ht'" "keys_within L ht'"
proof -
  let ?n = "nat (size_ht ht)"
  let ?f = "find (holds_key ht key) (probes (home hf key ?n) ?n)"
  have w: "well_formed ht" using assms(1) by (simp add: store_inv_def)
  have "size_ht ht \<noteq> 0"
    using assms(3) by (auto simp: remove_ht_def hash_def)
  then have pos: "0 < size_ht ht" using w by (simp add: well_formed_def)
  have e: "Inr ht' = (case ?f of None \<Rightarrow> Inl Invalid_argument
       | Some j \<Rightarrow> if elements_count ht \<le> INT_MIN then Inl Undefined_behaviour
                   else Inr (clear_slot ht j))"
    using remove_find [OF w pos, of hf key] assms(3) by simp
  then obtain j where j: "?f = Some j" and h: "ht' = clear_slot ht j"
    by (cases ?f) (auto split: if_splits)
  have jn: "j < ?n" "holds_key ht key j"
    using j set_probes [of "home hf key ?n" ?n] by (auto simp: find_Some_iff)
  then have o: "occupied ht ! j" by (simp add: holds_key_def)
  show "store_inv ht'" unfolding h by (rule store_inv_clear(1) [OF assms(1,2) jn(1) o])
  show "keys_within L ht'" unfolding h by (rule store_inv_clear(2) [OF assms(1,2) jn(1) o])
qed


lemma keys_within_mono: "keys_within L ht \<Longrightarrow> L \<le> M \<Longrightarrow> keys_within M ht"
  by (auto simp: keys_within_def)

lemma run_inserts_inv:
  assumes "store_inv ht" "keys_within L ht" "\<forall>(k, v)\<in>set kvs. length k \<le> L"
    and "run_ops hf ht (map (\<lambda>(k, v). Insert k v) kvs) = Some (Inr S)"
  shows "store_inv S \<and> keys_within L S"
  using assms
proof (induction kvs arbitrary: ht)
  case Nil
  then show ?case by simp
next
  case (Cons a kvs)
  obtain k v where a: "a = (k, v)" by (cases a)
  obtain ht' where i: "insert_ht hf ht k v = Some (Inr ht')"
    and r: "run_ops hf ht' (map (\<lambda>(k, v). Insert k v) kvs) = Some (Inr S)"
    using Cons.prems(4) by (auto simp: a split: option.splits sum.splits)
  have l: "length k \<le> L" using Cons.prems(3) by (simp add: a)
  have rest: "\<forall>(k, v)\<in>set kvs. length k \<le> L" using Cons.prems(3) by simp
  show ?case
    by (rule Cons.IH [OF insert_inv(1) [OF Cons.prems(1,2) l i]
          insert_inv(2) [OF Cons.prems(1,2) l i] rest r])
qed

subsection \<open>Claim C1: save, then load\<close>

text \<open>
  Claim C1: let the store \<open>S\<close> be the result of a sequence of inserts into an empty
  store, and let \<open>bytes\<close> be the file that \<^verbatim>\<open>save_to_file\<close> writes for \<open>S\<close>. If
  \<^verbatim>\<open>load_from_file\<close> reads that file without truncation, it returns \<^verbatim>\<open>true\<close> and the
  store it has loaded is \<open>S\<close>, field by field: the capacity, the count, the first and
  the last index, and the two vectors, hence every key with its value. The store that
  is loaded into may be a fresh one or any other. The load is truncated exactly when a
  slot of \<open>S\<close> holds a key of more than 1000 bytes.

  The capacity given to the constructor is an \<^verbatim>\<open>int\<close>, and the length of a key is
  written to the file as an \<^verbatim>\<open>int\<close>: the theorem is about capacities up to \<open>INT_MAX\<close> and
  keys of at most \<open>INT_MAX\<close> bytes.
\<close>

theorem save_load_round_trip:
  assumes "HashTable n = Inr ht0" and "n \<le> INT_MAX"
    and "\<forall>(k, v)\<in>set kvs. length k \<le> 2147483647"
    and "run_ops hf ht0 (map (\<lambda>(k, v). Insert k v) kvs) = Some (Inr S)"
  shows "\<exists>bytes. save_to_file True S = Inr bytes \<and>
           (load_completes bytes F \<longrightarrow> load_from_file (Some bytes) F = Inr (True, S)) \<and>
           (load_completes bytes F \<longleftrightarrow>
              (\<forall>j<nat (size_ht S). length (fst (table S ! j)) \<le> 1000))"
proof -
  have "store_inv S \<and> keys_within 2147483647 S"
    by (rule run_inserts_inv [OF store_inv_fresh [OF assms(1,2)] assms(3,4)])
  then have i: "store_inv S" and k: "keys_within 2147483647 S" by simp_all
  show ?thesis
    using save_load_exact [OF i k, of F] by blast
qed

text \<open>
  The witness: the store of capacity 2 with \<open>''a''\<close> and \<open>''b''\<close> inserted, every key hashing
  to slot 0, saved and loaded into a fresh store of capacity 1.
\<close>

theorem save_load_round_trip_witness:
  "HashTable 2 = Inr \<lparr> table = [('''', 0), ('''', 0)], occupied = [False, False],
         first_index = - 1, last_index = - 1, size_ht = 2, elements_count = 0 \<rparr>
   \<and> (2 :: int) \<le> INT_MAX
   \<and> length ''a'' \<le> 2147483647 \<and> length ''b'' \<le> 2147483647
   \<and> run_ops (\<lambda>_. 0) \<lparr> table = [('''', 0), ('''', 0)], occupied = [False, False],
         first_index = - 1, last_index = - 1, size_ht = 2, elements_count = 0 \<rparr>
         (map (\<lambda>(k, v). Insert k v) [(''a'', 1), (''b'', 2)])
       = Some (Inr \<lparr> table = [(''a'', 1), (''b'', 2)], occupied = [True, True],
                     first_index = 0, last_index = 1, size_ht = 2, elements_count = 2 \<rparr>)
   \<and> (\<exists>bytes. save_to_file True \<lparr> table = [(''a'', 1), (''b'', 2)], occupied = [True, True],
                     first_index = 0, last_index = 1, size_ht = 2, elements_count = 2 \<rparr>
                  = Inr bytes
         \<and> load_completes bytes \<lparr> table = [('''', 0)], occupied = [False],
                     first_index = - 1, last_index = - 1, size_ht = 1, elements_count = 0 \<rparr>
         \<and> load_from_file (Some bytes) \<lparr> table = [('''', 0)], occupied = [False],
                     first_index = - 1, last_index = - 1, size_ht = 1, elements_count = 0 \<rparr>
             = Inr (True, \<lparr> table = [(''a'', 1), (''b'', 2)], occupied = [True, True],
                     first_index = 0, last_index = 1, size_ht = 2, elements_count = 2 \<rparr>))"
proof -
  let ?h0 = "\<lparr> table = [('''', 0 :: 32 word), ('''', 0)], occupied = [False, False],
         first_index = - 1, last_index = - 1, size_ht = 2, elements_count = 0 \<rparr>"
  let ?S = "\<lparr> table = [(''a'', 1 :: 32 word), (''b'', 2)], occupied = [True, True],
         first_index = 0, last_index = 1, size_ht = 2, elements_count = 2 \<rparr>"
  let ?F = "\<lparr> table = [('''', 0 :: 32 word)], occupied = [False],
         first_index = - 1, last_index = - 1, size_ht = 1, elements_count = 0 \<rparr>"
  have h: "HashTable 2 = Inr ?h0"
    by (simp add: HashTable_def eval_nat_numeral)
  have m: "(2 :: int) \<le> INT_MAX" by (simp add: INT_MAX_def)
  have k: "\<forall>(k, v)\<in>set [(''a'', 1 :: 32 word), (''b'', 2)]. length k \<le> 2147483647"
    by simp
  have r: "run_ops (\<lambda>_. 0) ?h0 (map (\<lambda>(k, v). Insert k v) [(''a'', 1), (''b'', 2)])
      = Some (Inr ?S)"
    by (simp add: insert_ht_def slot_ok_def eval_nat_numeral smod_mod_positive INT_MAX_def)
  have u: "\<forall>j<nat (size_ht ?S). length (fst (table ?S ! j)) \<le> 1000"
    by (simp add: eval_nat_numeral All_less_Suc)
  obtain bytes where sv: "save_to_file True ?S = Inr bytes"
    and imp: "load_completes bytes ?F \<longrightarrow> load_from_file (Some bytes) ?F = Inr (True, ?S)"
    and iff: "load_completes bytes ?F \<longleftrightarrow>
              (\<forall>j<nat (size_ht ?S). length (fst (table ?S ! j)) \<le> 1000)"
    using save_load_round_trip [OF h m k r, of ?F] by blast
  have lc: "load_completes bytes ?F" using iff u by blast
  then have lf: "load_from_file (Some bytes) ?F = Inr (True, ?S)" using imp by blast
  have e: "\<exists>bytes. save_to_file True ?S = Inr bytes \<and> load_completes bytes ?F \<and>
      load_from_file (Some bytes) ?F = Inr (True, ?S)"
    using sv lc lf by blast
  show ?thesis
    using h m r e by simp
qed

subsection \<open>Claim C2: what \<open>load\<close> returns\<close>

text \<open>
  Claim C2 says that \<^verbatim>\<open>load_from_file\<close> returns \<^verbatim>\<open>true\<close> whenever the four header fields
  could be read, whatever follows. The code reads the capacity from the header and
  calls \<^verbatim>\<open>table.resize(size)\<close> without looking at it; the key length of every slot is
  validated, the capacity is not. A negative capacity converts to a \<^verbatim>\<open>size_t\<close> beyond
  \<^verbatim>\<open>max_size()\<close>, and \<^verbatim>\<open>resize\<close> throws \<^verbatim>\<open>std::length_error\<close>: the call does not return.

  Claim C2 at the failing input: a file of sixteen bytes, the header with capacity -1,
  count 0, first index -1 and last index -1. All four fields are read, and
  \<^verbatim>\<open>load_from_file\<close> ends with the exception, for every store it is called on.
\<close>

theorem load_negative_capacity_throws:
  "load_header
     [CHR 0xFF, CHR 0xFF, CHR 0xFF, CHR 0xFF, CHR 0x00, CHR 0x00, CHR 0x00, CHR 0x00,
      CHR 0xFF, CHR 0xFF, CHR 0xFF, CHR 0xFF, CHR 0xFF, CHR 0xFF, CHR 0xFF, CHR 0xFF] ht
     = (ht\<lparr> size_ht := - 1, elements_count := 0, first_index := - 1, last_index := - 1 \<rparr>,
        Some [])
   \<and> load_from_file
       (Some [CHR 0xFF, CHR 0xFF, CHR 0xFF, CHR 0xFF, CHR 0x00, CHR 0x00, CHR 0x00, CHR 0x00,
              CHR 0xFF, CHR 0xFF, CHR 0xFF, CHR 0xFF, CHR 0xFF, CHR 0xFF, CHR 0xFF, CHR 0xFF]) ht
     = Inl Length_error"
  by (simp add: load_from_file_def load_header_def read_field_def bytes_int_def load_slots_def
      Let_def)

subsection \<open>Claim C3: growth\<close>

text \<open>
  Claim C3 says that a lookup gives the same value before and after growth. That is
  what the header of the class promises as well (\<^verbatim>\<open>HashTable.h\<close>: \<^emph>\<open>if the key already
  exists, its value is updated\<close>, so a key has one slot and one value). The code breaks
  the promise in \<^verbatim>\<open>insert\<close>: its loop fills the first empty slot of the probe path
  without looking further along the path for the key. After a removal has emptied a
  slot in front of a stored key, inserting that key again stores it a second time. From
  then on the store holds two values for the key; \<open>get\<close> returns the one that comes
  first on the probe path, and \<^verbatim>\<open>resize\<close>, which moves the old slots in the order of their
  old indices, can exchange the two.

  Claim C3 at the failing input, with the hash function that is constantly 1 and a
  store of capacity 2: after \<^verbatim>\<open>insert("a",1)\<close>, \<^verbatim>\<open>insert("b",2)\<close>, \<^verbatim>\<open>remove("a")\<close>,
  \<^verbatim>\<open>insert("b",3)\<close> the key \<open>''b''\<close> sits in slot 0 with value 2 and in slot 1, its home,
  with value 3, and the store is full. \<open>get\<close> returns 3. Growth (\<^verbatim>\<open>resize\<close>, and the
  \<^verbatim>\<open>insert("c",4)\<close> that triggers it) puts the value 2 in front, and \<open>get\<close> returns 2.
\<close>

theorem growth_duplicate_key_divergence:
  "run_ops (\<lambda>_. 1)
     \<lparr> table = [('''', 0), ('''', 0)], occupied = [False, False],
       first_index = - 1, last_index = - 1, size_ht = 2, elements_count = 0 \<rparr>
     [Insert ''a'' 1, Insert ''b'' 2, Remove ''a'', Insert ''b'' 3]
   = Some (Inr \<lparr> table = [(''b'', 2), (''b'', 3)], occupied = [True, True],
                 first_index = 1, last_index = 1, size_ht = 2, elements_count = 2 \<rparr>)
   \<and> get (\<lambda>_. 1)
       \<lparr> table = [(''b'', 2), (''b'', 3)], occupied = [True, True],
         first_index = 1, last_index = 1, size_ht = 2, elements_count = 2 \<rparr> ''b'' = Inr 3
   \<and> resize (\<lambda>_. 1)
       \<lparr> table = [(''b'', 2), (''b'', 3)], occupied = [True, True],
         first_index = 1, last_index = 1, size_ht = 2, elements_count = 2 \<rparr>
     = Some (Inr \<lparr> table = (replicate 2002 ('''', 0))[1 := (''b'', 2), 2 := (''b'', 3)],
                   occupied = (replicate 2002 False)[1 := True, 2 := True],
                   first_index = 2, last_index = 2, size_ht = 2002, elements_count = 2 \<rparr>)
   \<and> get (\<lambda>_. 1)
       \<lparr> table = (replicate 2002 ('''', 0))[1 := (''b'', 2), 2 := (''b'', 3)],
         occupied = (replicate 2002 False)[1 := True, 2 := True],
         first_index = 2, last_index = 2, size_ht = 2002, elements_count = 2 \<rparr> ''b'' = Inr 2
   \<and> insert_ht (\<lambda>_. 1)
       \<lparr> table = [(''b'', 2), (''b'', 3)], occupied = [True, True],
         first_index = 1, last_index = 1, size_ht = 2, elements_count = 2 \<rparr> ''c'' 4
     = Some (Inr \<lparr> table = (replicate 2002 ('''', 0))
                             [1 := (''b'', 2), 2 := (''b'', 3), 3 := (''c'', 4)],
                   occupied = (replicate 2002 False)[1 := True, 2 := True, 3 := True],
                   first_index = 2, last_index = 3, size_ht = 2002, elements_count = 3 \<rparr>)
   \<and> get (\<lambda>_. 1)
       \<lparr> table = (replicate 2002 ('''', 0))
                   [1 := (''b'', 2), 2 := (''b'', 3), 3 := (''c'', 4)],
         occupied = (replicate 2002 False)[1 := True, 2 := True, 3 := True],
         first_index = 2, last_index = 3, size_ht = 2002, elements_count = 3 \<rparr> ''b'' = Inr 2"
proof -
  have h2: "\<And>key. hash (\<lambda>_. 1) key 2 = Inr 1"
    by (simp add: hash_const1 INT_MAX_def)
  have h2002: "\<And>key. hash (\<lambda>_. 1) key 2002 = Inr 1"
    by (simp add: hash_const1 INT_MAX_def)
  have a: "run_ops (\<lambda>_. 1)
     \<lparr> table = [('''', 0), ('''', 0)], occupied = [False, False],
       first_index = - 1, last_index = - 1, size_ht = 2, elements_count = 0 \<rparr>
     [Insert ''a'' 1, Insert ''b'' 2, Remove ''a'', Insert ''b'' 3]
   = Some (Inr \<lparr> table = [(''b'', 2), (''b'', 3)], occupied = [True, True],
                 first_index = 1, last_index = 1, size_ht = 2, elements_count = 2 \<rparr>)"
    by (simp add: insert_ht_def remove_ht_def h2 slot_ok_def eval_nat_numeral smod_mod_positive
        INT_MAX_def INT_MIN_def)
  have b: "get (\<lambda>_. 1)
       \<lparr> table = [(''b'', 2), (''b'', 3)], occupied = [True, True],
         first_index = 1, last_index = 1, size_ht = 2, elements_count = 2 \<rparr> ''b'' = Inr 3"
    by (simp add: get_def h2 slot_ok_def eval_nat_numeral)
  have c: "resize (\<lambda>_. 1)
       \<lparr> table = [(''b'', 2), (''b'', 3)], occupied = [True, True],
         first_index = 1, last_index = 1, size_ht = 2, elements_count = 2 \<rparr>
     = Some (Inr \<lparr> table = (replicate 2002 ('''', 0))[1 := (''b'', 2), 2 := (''b'', 3)],
                   occupied = (replicate 2002 False)[1 := True, 2 := True],
                   first_index = 2, last_index = 2, size_ht = 2002, elements_count = 2 \<rparr>)"
    by (simp add: resize_def INT_MAX_def slot_ok_def h2002 linear_probe_free linear_probe_next
        linear_probe_loop_free upt_rec)
  have d: "get (\<lambda>_. 1)
       \<lparr> table = (replicate 2002 ('''', 0))[1 := (''b'', 2), 2 := (''b'', 3)],
         occupied = (replicate 2002 False)[1 := True, 2 := True],
         first_index = 2, last_index = 2, size_ht = 2002, elements_count = 2 \<rparr> ''b'' = Inr 2"
    by (simp add: get_def h2002 get_loop_pos slot_ok_def)
  have e: "insert_ht (\<lambda>_. 1)
       \<lparr> table = [(''b'', 2), (''b'', 3)], occupied = [True, True],
         first_index = 1, last_index = 1, size_ht = 2, elements_count = 2 \<rparr> ''c'' 4
     = Some (Inr \<lparr> table = (replicate 2002 ('''', 0))
                             [1 := (''b'', 2), 2 := (''b'', 3), 3 := (''c'', 4)],
                   occupied = (replicate 2002 False)[1 := True, 2 := True, 3 := True],
                   first_index = 2, last_index = 3, size_ht = 2002, elements_count = 3 \<rparr>)"
    by (simp add: insert_ht_def c h2002 insert_loop_pos slot_ok_def smod_mod_positive
        INT_MAX_def)
  have f: "get (\<lambda>_. 1)
       \<lparr> table = (replicate 2002 ('''', 0))
                   [1 := (''b'', 2), 2 := (''b'', 3), 3 := (''c'', 4)],
         occupied = (replicate 2002 False)[1 := True, 2 := True, 3 := True],
         first_index = 2, last_index = 3, size_ht = 2002, elements_count = 3 \<rparr> ''b'' = Inr 2"
    by (simp add: get_def h2002 get_loop_pos slot_ok_def)
  show ?thesis using a b c d e f by simp
qed

subsection \<open>Claim C4: what \<open>get\<close> does with empty slots\<close>

text \<open>
  Claim C4 describes \<^verbatim>\<open>get\<close> as a probe that stops with KeyNotFound at the first empty
  slot. \<open>get_as_specified\<close> is that description; the source's loop tests
  \<^verbatim>\<open>occupied[index] && table[index].first == key\<close> and goes on otherwise, so an empty
  slot does not end it.

  Claim C4, as amended: for every well-formed store of positive capacity and every key,
  \<open>get\<close> returns the value \<open>v\<close> exactly when some probe position within the capacity
  holds the key in an occupied slot with value \<open>v\<close> and no earlier probe position holds
  the key; it fails with KeyNotFound (\<open>Invalid_argument\<close>) exactly when none of the
  capacity probe positions holds the key, which is when no slot at all holds it; and it
  has no third outcome. Empty slots on the way are skipped.
\<close>

theorem get_skips_empty_slots:
  assumes "well_formed ht" and "0 < size_ht ht"
  shows "(get hf ht key = Inr v \<longleftrightarrow>
            (\<exists>i<nat (size_ht ht).
               holds_key ht key (probe_index hf key (nat (size_ht ht)) i) \<and>
               snd (table ht ! probe_index hf key (nat (size_ht ht)) i) = v \<and>
               (\<forall>i'<i. \<not> holds_key ht key (probe_index hf key (nat (size_ht ht)) i'))))
       \<and> (get hf ht key = Inl Invalid_argument \<longleftrightarrow>
            (\<forall>i<nat (size_ht ht). \<not> holds_key ht key (probe_index hf key (nat (size_ht ht)) i)))
       \<and> (get hf ht key = Inl Invalid_argument \<longleftrightarrow>
            (\<forall>j<nat (size_ht ht). \<not> holds_key ht key j))
       \<and> ((\<exists>v. get hf ht key = Inr v) \<or> get hf ht key = Inl Invalid_argument)"
proof -
  let ?n = "nat (size_ht ht)"
  let ?f = "find (holds_key ht key) (probes (home hf key ?n) ?n)"
  have g: "get hf ht key = (case ?f of None \<Rightarrow> Inl Invalid_argument | Some j \<Rightarrow> Inr (snd (table ht ! j)))"
    by (rule get_find [OF assms])
  have a: "get hf ht key = Inr v \<longleftrightarrow> (\<exists>j. ?f = Some j \<and> snd (table ht ! j) = v)"
    unfolding g by (cases ?f) auto
  have b: "get hf ht key = Inl Invalid_argument \<longleftrightarrow> ?f = None"
    unfolding g by (cases ?f) auto
  have c: "(\<exists>v. get hf ht key = Inr v) \<or> get hf ht key = Inl Invalid_argument"
    unfolding g by (cases ?f) auto
  have a': "get hf ht key = Inr v \<longleftrightarrow>
            (\<exists>i<?n. holds_key ht key (probe_index hf key ?n i) \<and>
               snd (table ht ! probe_index hf key ?n i) = v \<and>
               (\<forall>i'<i. \<not> holds_key ht key (probe_index hf key ?n i')))"
    unfolding a by (auto simp: find_probes_Some probe_index_def)
  have b1: "get hf ht key = Inl Invalid_argument \<longleftrightarrow>
      (\<forall>i<?n. \<not> holds_key ht key (probe_index hf key ?n i))"
    unfolding b by (auto simp: find_None_iff probes_def probe_index_def)
  have b2: "get hf ht key = Inl Invalid_argument \<longleftrightarrow> (\<forall>j<?n. \<not> holds_key ht key j)"
    unfolding b by (rule find_probes_None)
  show ?thesis
    using a' b1 b2 c by blast
qed

text \<open>
  The witness: the store with two slots left by \<^verbatim>\<open>insert("a",1)\<close>, \<^verbatim>\<open>insert("b",2)\<close>,
  \<^verbatim>\<open>remove("a")\<close> when both keys hash to slot 0. The theorem finds \<open>''b''\<close> at the second
  probe position, behind the empty slot.
\<close>

theorem get_skips_empty_slots_witness:
  "well_formed \<lparr> table = [('''', 0), (''b'', 2)], occupied = [False, True],
         first_index = - 1, last_index = 1, size_ht = 2, elements_count = 1 \<rparr>
   \<and> (0 :: int) < 2
   \<and> \<not> occupied \<lparr> table = [('''', 0), (''b'', 2)], occupied = [False, True],
         first_index = - 1, last_index = 1, size_ht = 2, elements_count = 1 \<rparr>
       ! probe_index (\<lambda>_. 0) ''b'' 2 0
   \<and> (\<exists>i<2. holds_key \<lparr> table = [('''', 0), (''b'', 2)], occupied = [False, True],
         first_index = - 1, last_index = 1, size_ht = 2, elements_count = 1 \<rparr> ''b''
         (probe_index (\<lambda>_. 0) ''b'' 2 i))"
proof -
  let ?st = "\<lparr> table = [('''', 0), (''b'', 2 :: 32 word)], occupied = [False, True],
         first_index = - 1, last_index = 1, size_ht = 2, elements_count = 1 \<rparr>"
  have w: "well_formed ?st"
    by (simp add: well_formed_def INT_MAX_def)
  have p: "0 < size_ht ?st" by simp
  have g: "get (\<lambda>_. 0) ?st ''b'' = Inr 2"
    by (simp add: get_def slot_ok_def eval_nat_numeral smod_mod_positive)
  have e: "\<not> occupied ?st ! probe_index (\<lambda>_. 0) ''b'' 2 0"
    by (simp add: probe_index_def home_def)
  have "\<exists>i<nat (size_ht ?st). holds_key ?st ''b'' (probe_index (\<lambda>_. 0) ''b'' (nat (size_ht ?st)) i)"
    using get_skips_empty_slots [OF w p, of "\<lambda>_. 0" "''b''" 2] g by blast
  then show ?thesis
    using w e by simp
qed

text \<open>
  The counterexample to the claim as stated: with a hash function that sends every key
  to slot 0, the three operations leave slot 0 empty and \<open>''b''\<close> in slot 1. The
  source's \<open>get\<close> returns 2; a probe that stops at the first empty slot reports
  KeyNotFound.
\<close>

theorem get_stops_at_empty_counterexample:
  "run_ops (\<lambda>_. 0)
     \<lparr> table = [('''', 0), ('''', 0)], occupied = [False, False],
       first_index = - 1, last_index = - 1, size_ht = 2, elements_count = 0 \<rparr>
     [Insert ''a'' 1, Insert ''b'' 2, Remove ''a'']
   = Some (Inr \<lparr> table = [('''', 0), (''b'', 2)], occupied = [False, True],
                 first_index = - 1, last_index = 1, size_ht = 2, elements_count = 1 \<rparr>)
   \<and> get (\<lambda>_. 0)
       \<lparr> table = [('''', 0), (''b'', 2)], occupied = [False, True],
         first_index = - 1, last_index = 1, size_ht = 2, elements_count = 1 \<rparr> ''b'' = Inr 2
   \<and> get_as_specified (\<lambda>_. 0)
       \<lparr> table = [('''', 0), (''b'', 2)], occupied = [False, True],
         first_index = - 1, last_index = 1, size_ht = 2, elements_count = 1 \<rparr> ''b''
       = Inl Invalid_argument"
  by (simp add: insert_ht_def remove_ht_def get_def get_as_specified_def slot_ok_def
      eval_nat_numeral smod_mod_positive INT_MAX_def INT_MIN_def)

subsection \<open>Claim C5: the scenario a, b, a\<close>

text \<open>
  Claim C5 has the last index refer to \<open>''a''\<close> after the three inserts. The third insert
  finds \<open>''a''\<close> in its slot, overwrites the value and returns before the lines that set
  \<^verbatim>\<open>last_index\<close>, so the last index stays where the second insert put it: at \<open>''b''\<close>.

  Claim C5, as amended: inserting (a, 1), then (b, 2), then (a, 5) into an empty store
  of capacity 4 yields the statistics (2, 4), \<open>get a = 5\<close>, \<open>get b = 2\<close>, a first index that
  refers to the slot holding a (\<open>get_first\<close> returns (a, 5)) and a last index that refers
  to the slot holding b (\<open>get_last\<close> returns (b, 2)). This holds for every hash function.
\<close>

theorem overwrite_scenario:
  "\<exists>ht0 ht. HashTable 4 = Inr ht0 \<and>
     run_ops hf ht0 [Insert ''a'' 1, Insert ''b'' 2, Insert ''a'' 5] = Some (Inr ht) \<and>
     get_stats ht = (2, 4) \<and> get hf ht ''a'' = Inr 5 \<and> get hf ht ''b'' = Inr 2 \<and>
     get_first ht = Inr (''a'', 5) \<and> get_last ht = Inr (''b'', 2)"
proof -
  obtain ht0 where h: "HashTable 4 = Inr ht0"
    by (simp add: HashTable_def)
  have ne: "''a'' \<noteq> ''b''" by simp
  obtain ht1 ht2 ht3 where
    "insert_ht hf ht0 ''a'' 1 = Some (Inr ht1)"
    "insert_ht hf ht1 ''b'' 2 = Some (Inr ht2)"
    "insert_ht hf ht2 ''a'' 5 = Some (Inr ht3)"
    "get_stats ht3 = (2, 4)" "get hf ht3 ''a'' = Inr 5" "get hf ht3 ''b'' = Inr 2"
    "get_first ht3 = Inr (''a'', 5)" "get_last ht3 = Inr (''b'', 2)"
    using three_inserts [OF _ _ h ne, of hf 1 2 5] by (auto simp: INT_MAX_def)
  then show ?thesis using h by auto
qed

text \<open>
  The counterexample to the claim as stated, with every key hashing to slot 0: the
  final store has \<open>''a''\<close> in slot 0, \<open>''b''\<close> in slot 1 and the last index 1.
\<close>

theorem overwrite_scenario_last_counterexample:
  "run_ops (\<lambda>_. 0)
     \<lparr> table = [('''', 0), ('''', 0), ('''', 0), ('''', 0)],
       occupied = [False, False, False, False],
       first_index = - 1, last_index = - 1, size_ht = 4, elements_count = 0 \<rparr>
     [Insert ''a'' 1, Insert ''b'' 2, Insert ''a'' 5]
   = Some (Inr \<lparr> table = [(''a'', 5), (''b'', 2), ('''', 0), ('''', 0)],
                 occupied = [True, True, False, False],
                 first_index = 0, last_index = 1, size_ht = 4, elements_count = 2 \<rparr>)
   \<and> get_last \<lparr> table = [(''a'', 5), (''b'', 2), ('''', 0), ('''', 0)],
                 occupied = [True, True, False, False],
                 first_index = 0, last_index = 1, size_ht = 4, elements_count = 2 \<rparr>
       = Inr (''b'', 2)"
  by (simp add: insert_ht_def get_last_def slot_ok_def eval_nat_numeral smod_mod_positive
      INT_MAX_def)

subsection \<open>Claim C6: inserting a key that is already stored\<close>




subsection \<open>Claim C7: the checksum of the corpus\<close>

text \<open>
  Claim C7 says that every byte of the corpus contributes to the checksum, the final
  partial buffer included, and that the checksum is a hex string of one fixed length.
  \<^verbatim>\<open>compute_md5\<close> reads the file in buffers of 4096 bytes with
  \<^verbatim>\<open>while (file.read(buffer, sizeof(buffer)))\<close>. A read that reaches the end of the file
  before the buffer is full sets the fail bit, so the loop ends without passing the
  bytes of that read to \<^verbatim>\<open>MD5_Update\<close>: the bytes after the last full buffer are left out
  of the digest. The digest is printed byte by byte with \<^verbatim>\<open>hex\<close> and no width or fill
  character, so a byte below 16 gives one character instead of two.

  Claim C7 at the failing input, for every implementation of the three MD5 functions:
  the checksum of a corpus is the checksum of its whole 4096-byte buffers alone; so the
  corpus \<open>''a''\<close> has the checksum of the empty corpus, which is the rendering of the
  digest of the untouched context. For MD5 that digest is
  \<^verbatim>\<open>d41d8cd98f00b204e9800998ecf8427e\<close>, and its rendering has 29 characters, not 32.
\<close>

theorem checksum_ignores_partial_buffer:
  "compute_md5 md5_init md5_update md5_final (Some content) =
     compute_md5 md5_init md5_update md5_final
       (Some (take (4096 * (length content div 4096)) content))
   \<and> compute_md5 md5_init md5_update md5_final (Some ''a'') =
       compute_md5 md5_init md5_update md5_final (Some '''')
   \<and> compute_md5 md5_init md5_update md5_final (Some ''a'') =
       Inr (concat (map (\<lambda>b. hex_int (unat b)) (take 16 (md5_final md5_init))))
   \<and> concat (map (\<lambda>b. hex_int (unat b)) (take 16 md5_of_empty_input)) =
       ''d41d8cd98f0b24e980998ecf8427e''
   \<and> length ''d41d8cd98f0b24e980998ecf8427e'' = 29"
proof -
  have a: "compute_md5 md5_init md5_update md5_final (Some content) =
     compute_md5 md5_init md5_update md5_final
       (Some (take (4096 * (length content div 4096)) content))"
    using md5_blocks_whole [of md5_update md5_init content] by (simp add: compute_md5_def)
  have b: "compute_md5 md5_init md5_update md5_final (Some ''a'') =
       Inr (concat (map (\<lambda>b. hex_int (unat b)) (take 16 (md5_final md5_init))))"
    by (simp add: compute_md5_def md5_blocks_short)
  have c: "compute_md5 md5_init md5_update md5_final (Some '''') =
       Inr (concat (map (\<lambda>b. hex_int (unat b)) (take 16 (md5_final md5_init))))"
    by (simp add: compute_md5_def md5_blocks_short)
  show ?thesis using a b c hex_empty_digest by simp
qed

subsection \<open>Claim C8: counting the words of a short text\<close>

text \<open>
  Claim C8: \<^verbatim>\<open>extract_words\<close> on a file with the content \<^verbatim>\<open>Hello, World! hello\<close>, into
  an empty store, leaves exactly the counts hello = 2 and world = 1: \<open>get\<close> returns 2 and
  1 for the two words and KeyNotFound for every other key, and two slots are occupied.
  The theorem holds for every hash function and every initial capacity from 3 up (the
  program creates its store with capacity 5000), so that no growth happens on the way.
\<close>

theorem extract_words_scenario:
  assumes "3 \<le> n" and "n \<le> INT_MAX" and "HashTable n = Inr ht0"
  shows "\<exists>ht. extract_words hf (Some ''Hello, World! hello'') ht0 = Some (Inr ht) \<and>
     get hf ht ''hello'' = Inr 2 \<and> get hf ht ''world'' = Inr 1 \<and>
     (\<forall>k. k \<noteq> ''hello'' \<and> k \<noteq> ''world'' \<longrightarrow> get hf ht k = Inl Invalid_argument) \<and>
     get_stats ht = (2, n)"
proof -
  have ne: "''hello'' \<noteq> ''world''" by simp
  obtain ht1 ht2 ht3 where i:
    "insert_ht hf ht0 ''hello'' 1 = Some (Inr ht1)"
    "insert_ht hf ht1 ''world'' 1 = Some (Inr ht2)"
    "insert_ht hf ht2 ''hello'' (1 + 1) = Some (Inr ht3)"
    and g: "get hf ht0 ''hello'' = Inl Invalid_argument"
    "get hf ht1 ''world'' = Inl Invalid_argument"
    "get hf ht2 ''hello'' = Inr 1"
    and r: "get_stats ht3 = (2, n)" "get hf ht3 ''hello'' = Inr (1 + 1)"
    "get hf ht3 ''world'' = Inr 1"
    "\<forall>k. k \<noteq> ''hello'' \<and> k \<noteq> ''world'' \<longrightarrow> get hf ht3 k = Inl Invalid_argument"
    using three_inserts [OF assms ne, of hf 1 1 "1 + 1"]
    by (elim exE conjE) (rule that, assumption+)
  have t1: "count_tokens hf [''Hello''] ht0 = Some (Inr ht1)"
    by (rule count_tokens_new [OF lower_1 _ g(1) i(1)]) simp
  have t2: "count_tokens hf [''World''] ht1 = Some (Inr ht2)"
    by (rule count_tokens_new [OF lower_2 _ g(2) i(2)]) simp
  have t3: "count_tokens hf [''hello''] ht2 = Some (Inr ht3)"
    by (rule count_tokens_known [OF lower_3 _ g(3) i(3)]) simp
  have cw: "count_words hf [''Hello,'', ''World!'', ''hello''] ht0 = Some (Inr ht3)"
    unfolding count_words_step [OF clean_1 tokens_1 t1]
      count_words_step [OF clean_2 tokens_2 t2] count_words_step [OF clean_3 tokens_3 t3]
    by (simp only: count_words.simps)
  have "extract_words hf (Some ''Hello, World! hello'') ht0 =
        count_words hf (stream_words ''Hello, World! hello'') ht0"
    by (simp only: extract_words_def option.case)
  also have "\<dots> = Some (Inr ht3)"
    by (simp only: words_of_text cw)
  finally have "extract_words hf (Some ''Hello, World! hello'') ht0 = Some (Inr ht3)" .
  then show ?thesis using r by simp
qed

text \<open>The witness: the capacity 5000 of the program, every key hashing to slot 0.\<close>

theorem extract_words_scenario_witness:
  "(3 :: int) \<le> 5000 \<and> (5000 :: int) \<le> INT_MAX
   \<and> (\<exists>ht0 ht. HashTable 5000 = Inr ht0 \<and>
        extract_words (\<lambda>_. 0) (Some ''Hello, World! hello'') ht0 = Some (Inr ht) \<and>
        get (\<lambda>_. 0) ht ''hello'' = Inr 2 \<and> get (\<lambda>_. 0) ht ''world'' = Inr 1 \<and>
        get_stats ht = (2, 5000))"
proof -
  have a: "(3 :: int) \<le> 5000" by simp
  have b: "(5000 :: int) \<le> INT_MAX" by (simp add: INT_MAX_def)
  obtain ht0 where h: "HashTable 5000 = Inr ht0"
    by (simp add: HashTable_def)
  obtain ht where "extract_words (\<lambda>_. 0) (Some ''Hello, World! hello'') ht0 = Some (Inr ht)"
    "get (\<lambda>_. 0) ht ''hello'' = Inr 2" "get (\<lambda>_. 0) ht ''world'' = Inr 1"
    "get_stats ht = (2, 5000)"
    using extract_words_scenario [OF a b h, of "\<lambda>_. 0"]
    by (elim exE conjE) (rule that, assumption+)
  then show ?thesis
    using a b h by blast
qed

subsection \<open>Claim C10: \<open>get\<close> and \<open>remove\<close> reach a key behind empty slots\<close>

text \<open>
  Claim C10 says that \<open>get\<close> and \<open>remove\<close> act on the slot that holds the key. It takes
  for granted that a key has one slot, as the header of the class promises
  (\<^verbatim>\<open>HashTable.h\<close>: \<^emph>\<open>if the key already exists, its value is updated\<close>). Both loops do skip
  empty slots and take the first occupied slot on the probe path that holds the key.
  The code breaks the promise of the header in \<^verbatim>\<open>insert\<close>, whose loop fills the first
  empty slot of the probe path without looking further along the path for the key:
  after a removal has emptied a slot in front of a stored key, inserting that key again
  stores it a second time and leaves the old slot as it was.

  Claim C10 at the failing input, with every key hashing to slot 0 and a store of
  capacity 2: \<^verbatim>\<open>insert("a",1)\<close>, \<^verbatim>\<open>insert("b",2)\<close>, \<^verbatim>\<open>remove("a")\<close>, \<^verbatim>\<open>insert("b",3)\<close>
  leave \<open>''b''\<close> in both slots, with value 3 in slot 0 and value 2 in slot 1. Slot 1 is
  occupied and holds \<open>''b''\<close>, but \<open>get\<close> returns 3, not the 2 of slot 1, and \<open>remove\<close>
  clears slot 0, not slot 1; after the removal \<open>get\<close> still finds \<open>''b''\<close>, with value 2.
\<close>

theorem get_remove_duplicate_key_divergence:
  "run_ops (\<lambda>_. 0)
     \<lparr> table = [('''', 0), ('''', 0)], occupied = [False, False],
       first_index = - 1, last_index = - 1, size_ht = 2, elements_count = 0 \<rparr>
     [Insert ''a'' 1, Insert ''b'' 2, Remove ''a'', Insert ''b'' 3]
   = Some (Inr \<lparr> table = [(''b'', 3), (''b'', 2)], occupied = [True, True],
                 first_index = 0, last_index = 0, size_ht = 2, elements_count = 2 \<rparr>)
   \<and> holds_key
       \<lparr> table = [(''b'', 3), (''b'', 2)], occupied = [True, True],
         first_index = 0, last_index = 0, size_ht = 2, elements_count = 2 \<rparr> ''b'' 1
   \<and> get (\<lambda>_. 0)
       \<lparr> table = [(''b'', 3), (''b'', 2)], occupied = [True, True],
         first_index = 0, last_index = 0, size_ht = 2, elements_count = 2 \<rparr> ''b'' = Inr 3
   \<and> remove_ht (\<lambda>_. 0)
       \<lparr> table = [(''b'', 3), (''b'', 2)], occupied = [True, True],
         first_index = 0, last_index = 0, size_ht = 2, elements_count = 2 \<rparr> ''b''
       = Inr \<lparr> table = [('''', 0), (''b'', 2)], occupied = [False, True],
         first_index = - 1, last_index = - 1, size_ht = 2, elements_count = 1 \<rparr>
   \<and> get (\<lambda>_. 0)
       \<lparr> table = [('''', 0), (''b'', 2)], occupied = [False, True],
         first_index = - 1, last_index = - 1, size_ht = 2, elements_count = 1 \<rparr> ''b'' = Inr 2"
  by (simp add: insert_ht_def remove_ht_def get_def slot_ok_def holds_key_def
      eval_nat_numeral smod_mod_positive INT_MAX_def INT_MIN_def)

end
